theory Spec2Isabelle
  imports Complex_Main "HOL-Library.Multiset"
begin

section \<open>Python values and exceptions\<close>

text \<open>
  The exceptions that the modelled code of \<^verbatim>\<open>src/dataset.py\<close> can raise. A function that
  may raise returns \<open>error + 'a\<close>, with \<open>Inl\<close> carrying the exception.
\<close>

datatype error =
    AssertionError
  | ValueError
  | IndexError
  | RuntimeError
  | FileNotFoundError
  | IsADirectoryError

text \<open>
  Python's \<^verbatim>\<open>xs[lo:hi]\<close>: a negative bound counts from the end, and every bound is
  clamped to the list.
\<close>

definition py_norm_index :: "nat \<Rightarrow> int \<Rightarrow> nat" where
  "py_norm_index n i = (if i < 0 then nat (max 0 (i + int n)) else nat (min i (int n)))"

definition py_slice :: "'a list \<Rightarrow> int \<Rightarrow> int \<Rightarrow> 'a list" where
  "py_slice xs lo hi =
     (let l = py_norm_index (length xs) lo;
          h = py_norm_index (length xs) hi
      in take (h - l) (drop l xs))"

text \<open>Python's \<^verbatim>\<open>xs[:c]\<close>.\<close>

definition py_take :: "int \<Rightarrow> 'a list \<Rightarrow> 'a list" where
  "py_take c xs = take (py_norm_index (length xs) c) xs"

text \<open>Python's \<^verbatim>\<open>max(xs)\<close> on a list: \<^verbatim>\<open>ValueError\<close> on the empty list.\<close>

fun py_max :: "int list \<Rightarrow> error + int" where
  "py_max [] = Inl ValueError"
| "py_max (x # xs) = Inr (fold max xs x)"

section \<open>The random source\<close>

text \<open>
  The module \<^verbatim>\<open>random\<close> is modelled by a tape of natural numbers and a cursor into it.
  A draw from \<open>n\<close> alternatives reads one cell and reduces it modulo \<open>n\<close>, so every
  outcome that the generator can produce is the outcome of some tape.

  \<^verbatim>\<open>random.choice(seq)\<close> raises \<^verbatim>\<open>IndexError\<close> on an empty sequence.
  \<^verbatim>\<open>random.sample(population, k)\<close> raises \<^verbatim>\<open>ValueError\<close> unless
  \<open>0 \<le> k \<le> len(population)\<close>; otherwise it returns \<open>k\<close> elements taken from
  pairwise different positions, in the order in which they were selected.
\<close>

type_synonym tape = "nat \<Rightarrow> nat"

definition random_choice_range :: "tape \<Rightarrow> nat \<Rightarrow> nat \<Rightarrow> error + (nat \<times> nat)" where
  "random_choice_range tp c n =
     (if n = 0 then Inl IndexError else Inr (tp c mod n, Suc c))"

fun draw :: "tape \<Rightarrow> nat \<Rightarrow> 'a list \<Rightarrow> nat \<Rightarrow> 'a list \<times> nat" where
  "draw tp c pop 0 = ([], c)"
| "draw tp c pop (Suc m) =
     (let j = tp c mod length pop;
          r = draw tp (Suc c) (take j pop @ drop (Suc j) pop) m
      in (pop ! j # fst r, snd r))"

definition random_sample :: "tape \<Rightarrow> nat \<Rightarrow> 'a list \<Rightarrow> int \<Rightarrow> error + ('a list \<times> nat)" where
  "random_sample tp c pop k =
     (if 0 \<le> k \<and> k \<le> int (length pop) then Inr (draw tp c pop (nat k))
      else Inl ValueError)"

section \<open>SimilarRandSampler\<close>

record sampler =
  s_ids :: "nat list"
  s_bs :: int
  s_k :: int
  s_len :: int

text \<open>
  \<^verbatim>\<open>np.argsort(keys).tolist()\<close>: the positions of \<open>keys\<close>, ordered by ascending key.
  numpy leaves the order of positions with equal keys to its sorting routine; the
  model orders them by position.
\<close>

definition argsort :: "int list \<Rightarrow> nat list" where
  "argsort keys = sort_key (\<lambda>i. keys ! i) [0..<length keys]"

text \<open>
  \<^verbatim>\<open>__init__\<close>: the assertion, then the three fields and
  \<^verbatim>\<open>int(np.ceil(len(self._ids) / self._bs))\<close>, written as the integer ceiling.
\<close>

definition SimilarRandSampler_init :: "int list \<Rightarrow> int \<Rightarrow> int \<Rightarrow> error + sampler" where
  "SimilarRandSampler_init keys b diversity =
     (if b \<ge> 1 \<and> diversity \<ge> 1
      then Inr \<lparr> s_ids = argsort keys, s_bs = b, s_k = diversity,
                 s_len = - ((- int (length (argsort keys))) div b) \<rparr>
      else Inl AssertionError)"

text \<open>The window bounds \<^verbatim>\<open>lb\<close> and \<^verbatim>\<open>rb\<close> of one pass of the loop.\<close>

definition window_lb :: "sampler \<Rightarrow> nat \<Rightarrow> int" where
  "window_lb s idx = max 0 (int idx - s_k s * s_bs s)"

definition window_rb :: "sampler \<Rightarrow> nat \<Rightarrow> nat \<Rightarrow> int" where
  "window_rb s n idx = min (int n) (int idx + s_k s * s_bs s)"

text \<open>
  One pass of the loop body up to the draw of the batch: the anchor position, the
  window, the sample. The result is the batch and the cursor of the tape.
\<close>

definition draw_batch :: "sampler \<Rightarrow> tape \<Rightarrow> nat \<Rightarrow> nat list \<Rightarrow> error + (nat list \<times> nat)" where
  "draw_batch s tp c cur_ids =
     (case random_choice_range tp c (length cur_ids) of
        Inl e \<Rightarrow> Inl e
      | Inr (idx, c1) \<Rightarrow>
          (let lb = window_lb s idx;
               rb = window_rb s (length cur_ids) idx
           in random_sample tp c1 (py_slice cur_ids lb rb) (min (s_bs s) (rb - lb))))"

text \<open>
  The loop \<^verbatim>\<open>while cur_ids: ...\<close>. It does not end when a batch is empty (a sampler
  record whose \<open>s_bs\<close> is \<open>0\<close>), so the result is an option: \<open>None\<close> is a run that never
  returns.
\<close>

partial_function (option) iter_loop ::
  "sampler \<Rightarrow> tape \<Rightarrow> nat \<Rightarrow> nat list \<Rightarrow> nat list \<Rightarrow> (error + nat list) option" where
  "iter_loop s tp c cur_ids similar_key_batches =
     (if cur_ids = [] then Some (Inr similar_key_batches)
      else (case draw_batch s tp c cur_ids of
              Inl e \<Rightarrow> Some (Inl e)
            | Inr (batch, c') \<Rightarrow>
                iter_loop s tp c' (filter (\<lambda>e. e \<notin> set batch) cur_ids)
                  (similar_key_batches @ batch)))"

definition SimilarRandSampler_iter :: "sampler \<Rightarrow> tape \<Rightarrow> nat \<Rightarrow> (error + nat list) option" where
  "SimilarRandSampler_iter s tp c = iter_loop s tp c (s_ids s) []"

section \<open>Files\<close>

text \<open>
  A path is the list of its components; a file system maps a path to a regular file
  with its text or to a directory with the names of its entries, in the order in
  which the directory is enumerated. Characters stand for code points.
\<close>

type_synonym path = "string list"

datatype node = File string | Dir "string list"

type_synonym filesystem = "path \<rightharpoonup> node"

text \<open>\<^verbatim>\<open>open(p).read()\<close>.\<close>

definition open_read :: "filesystem \<Rightarrow> path \<Rightarrow> error + string" where
  "open_read fs p =
     (case fs p of
        None \<Rightarrow> Inl FileNotFoundError
      | Some (Dir names) \<Rightarrow> Inl IsADirectoryError
      | Some (File content) \<Rightarrow> Inr content)"

text \<open>The names that the pattern \<^verbatim>\<open>*_*.txt\<close> matches.\<close>

definition fnmatch_us_txt :: "string \<Rightarrow> bool" where
  "fnmatch_us_txt name =
     (let n = length name
      in 4 \<le> n \<and> drop (n - 4) name = ''.txt'' \<and> CHR ''_'' \<in> set (take (n - 4) name))"

text \<open>
  \<^verbatim>\<open>list(d.glob('*_*.txt'))\<close>: the matching entries of the directory \<open>d\<close>. pathlib
  yields nothing when \<open>d\<close> is not a directory; it does not raise.
\<close>

definition glob_us_txt :: "filesystem \<Rightarrow> path \<Rightarrow> path list" where
  "glob_us_txt fs d =
     (case fs d of
        Some (Dir names) \<Rightarrow> map (\<lambda>name. d @ [name]) (filter fnmatch_us_txt names)
      | _ \<Rightarrow> [])"

text \<open>
  \<^verbatim>\<open>str.splitlines()\<close>: the line boundaries are line feed, carriage return (with a
  following line feed, if any), vertical tab, form feed, the file, group and record
  separators and next line; a boundary at the end of the text opens no further line.
\<close>

definition is_linebreak :: "char \<Rightarrow> bool" where
  "is_linebreak ch = (ch \<in> set [CHR 0x0A, CHR 0x0D, CHR 0x0B, CHR 0x0C, CHR 0x1C, CHR 0x1D,
     CHR 0x1E, CHR 0x85])"

fun splitlines_from :: "string \<Rightarrow> string \<Rightarrow> string list" where
  "splitlines_from cur [] = (if cur = [] then [] else [cur])"
| "splitlines_from cur (ch # rest) =
     (if ch = CHR 0x0D then
        (case rest of
           [] \<Rightarrow> [cur]
         | ch2 # rest2 \<Rightarrow>
             if ch2 = CHR 0x0A then cur # splitlines_from [] rest2
             else cur # splitlines_from [] rest)
      else if is_linebreak ch then cur # splitlines_from [] rest
      else splitlines_from (cur @ [ch]) rest)"

definition splitlines :: "string \<Rightarrow> string list" where
  "splitlines s = splitlines_from [] s"

section \<open>The vocabulary\<close>

text \<open>\<^verbatim>\<open>dict(pairs)\<close>: the pairs are stored one after the other, a later pair replaces
  an earlier one with the same key.\<close>

definition dict_of :: "('k \<times> 'v) list \<Rightarrow> ('k \<rightharpoonup> 'v)" where
  "dict_of kvs = foldl (\<lambda>m (key, v). m(key \<mapsto> v)) Map.empty kvs"

definition get_imdb_vocab :: "filesystem \<Rightarrow> path \<Rightarrow> error + (string \<rightharpoonup> int)" where
  "get_imdb_vocab fs imdb_root =
     (case open_read fs (imdb_root @ [''imdb.vocab'']) of
        Inl e \<Rightarrow> Inl e
      | Inr content \<Rightarrow>
          (let words = splitlines content;
               ids = [1 .. int (length words)]
           in Inr (dict_of (zip words ids))))"

section \<open>ImdbReviewsDataset\<close>

text \<open>
  The dictionary that \<^verbatim>\<open>__getitem__\<close> returns, with its four keys as fields; the key
  \<^verbatim>\<open>txt\<close> is the field \<open>txt'\<close>.
\<close>

record item =
  txt' :: "int list list"
  label :: int
  txt_len :: int
  snt_len :: int

text \<open>
  The two tokenizers of nltk are fields of the object; the model takes them as
  functions from a text to its pieces, and \<^verbatim>\<open>str.lower\<close> as a function \<open>str_lower\<close>.
\<close>

record dataset =
  path_to_data :: path
  vocab :: "string \<rightharpoonup> int"
  snt_clip :: int
  txt_clip :: int
  s_tokenizer :: "string \<Rightarrow> string list"
  w_tokenizer :: "string \<Rightarrow> string list"
  paths :: "path list"
  texts :: "int list list list"
  labels :: "int list"
  txt_lens :: "int list"
  snt_lens :: "int list"

text \<open>
  \<^verbatim>\<open>re.sub('<.*?>', ' ', text)\<close>. A match starts at a \<^verbatim>\<open><\<close> and ends at the first
  \<^verbatim>\<open>>\<close> after it, provided no line feed lies between them (the dot does not match a
  line feed). \<open>find_gt cs\<close> is the number of characters of \<open>cs\<close> up to and including
  that \<^verbatim>\<open>>\<close>.
\<close>

fun find_gt :: "string \<Rightarrow> nat option" where
  "find_gt [] = None"
| "find_gt (ch # cs) =
     (if ch = CHR ''>'' then Some 1
      else if ch = CHR 0x0A then None
      else map_option Suc (find_gt cs))"

fun html_sub :: "string \<Rightarrow> string" where
  "html_sub [] = []"
| "html_sub (ch # cs) =
     (if ch = CHR ''<'' then
        (case find_gt cs of
           Some n \<Rightarrow> CHR '' '' # html_sub (drop n cs)
         | None \<Rightarrow> ch # html_sub cs)
      else ch # html_sub cs)"

text \<open>
  The value of the variable \<^verbatim>\<open>text\<close> of \<^verbatim>\<open>tokenize_plane_text\<close>: the ids of the
  words of each sentence that are keys of the vocabulary, each sentence cut by
  \<^verbatim>\<open>[:snt_clip]\<close> and the list of sentences by \<^verbatim>\<open>[:txt_clip]\<close>.
\<close>

definition clipped_text :: "(string \<Rightarrow> string) \<Rightarrow> dataset \<Rightarrow> string \<Rightarrow> int list list" where
  "clipped_text str_lower ds text_plane =
     (let text_plane1 = str_lower text_plane;
          text_plane2 = html_sub text_plane1
      in py_take (txt_clip ds)
           (map (\<lambda>s. py_take (snt_clip ds) (List.map_filter (vocab ds) (w_tokenizer ds s)))
                (s_tokenizer ds text_plane2)))"

definition tokenize_plane_text ::
  "(string \<Rightarrow> string) \<Rightarrow> dataset \<Rightarrow> string \<Rightarrow> error + (int list list \<times> int \<times> int)" where
  "tokenize_plane_text str_lower ds text_plane =
     (let text = clipped_text str_lower ds text_plane
      in case py_max (map (\<lambda>snt. int (length snt)) text) of
           Inl e \<Rightarrow> Inl e
         | Inr snt_len_max \<Rightarrow> Inr (text, snt_len_max, int (length text)))"

text \<open>\<^verbatim>\<open>file_path.parent.name\<close>.\<close>

definition parent_name :: "path \<Rightarrow> string" where
  "parent_name p = last (butlast p)"

text \<open>The body of the loop of \<^verbatim>\<open>_load_data\<close>, and the loop over the files.\<close>

definition load_file ::
  "(string \<Rightarrow> string) \<Rightarrow> filesystem \<Rightarrow> dataset \<Rightarrow> path \<Rightarrow> error + dataset" where
  "load_file str_lower fs ds file_path =
     (case open_read fs file_path of
        Inl e \<Rightarrow> Inl e
      | Inr content \<Rightarrow>
          (case tokenize_plane_text str_lower ds content of
             Inl e \<Rightarrow> Inl e
           | Inr (text, snt_len_max, txt_len') \<Rightarrow>
               Inr (ds\<lparr> paths := paths ds @ [file_path],
                        texts := texts ds @ [text],
                        labels := labels ds @ [if parent_name file_path = ''pos'' then 1 else 0],
                        snt_lens := snt_lens ds @ [snt_len_max],
                        txt_lens := txt_lens ds @ [txt_len'] \<rparr>)))"

fun load_files ::
  "(string \<Rightarrow> string) \<Rightarrow> filesystem \<Rightarrow> dataset \<Rightarrow> path list \<Rightarrow> error + dataset" where
  "load_files str_lower fs ds [] = Inr ds"
| "load_files str_lower fs ds (file_path # files) =
     (case load_file str_lower fs ds file_path of
        Inl e \<Rightarrow> Inl e
      | Inr ds' \<Rightarrow> load_files str_lower fs ds' files)"

definition load_data :: "(string \<Rightarrow> string) \<Rightarrow> filesystem \<Rightarrow> dataset \<Rightarrow> error + dataset" where
  "load_data str_lower fs ds =
     (let files = glob_us_txt fs (path_to_data ds @ [''neg''])
                  @ glob_us_txt fs (path_to_data ds @ [''pos''])
      in load_files str_lower fs ds files)"

text \<open>\<^verbatim>\<open>__init__\<close>: the fields as they are before \<^verbatim>\<open>_load_data\<close>, then the load.\<close>

definition new_dataset ::
  "(string \<Rightarrow> string list) \<Rightarrow> (string \<Rightarrow> string list) \<Rightarrow> path \<Rightarrow> (string \<rightharpoonup> int) \<Rightarrow> int \<Rightarrow> int
     \<Rightarrow> dataset" where
  "new_dataset punkt wordpunct path_to_data' vocab' snt_clip' txt_clip' =
     \<lparr> path_to_data = path_to_data', vocab = vocab', snt_clip = snt_clip',
       txt_clip = txt_clip', s_tokenizer = punkt, w_tokenizer = wordpunct,
       paths = [], texts = [], labels = [], txt_lens = [], snt_lens = [] \<rparr>"

definition ImdbReviewsDataset_init ::
  "(string \<Rightarrow> string) \<Rightarrow> (string \<Rightarrow> string list) \<Rightarrow> (string \<Rightarrow> string list) \<Rightarrow> filesystem
     \<Rightarrow> path \<Rightarrow> (string \<rightharpoonup> int) \<Rightarrow> int \<Rightarrow> int \<Rightarrow> error + dataset" where
  "ImdbReviewsDataset_init str_lower punkt wordpunct fs path_to_data' vocab' snt_clip' txt_clip' =
     load_data str_lower fs
       (new_dataset punkt wordpunct path_to_data' vocab' snt_clip' txt_clip')"

definition ImdbReviewsDataset_len :: "dataset \<Rightarrow> int" where
  "ImdbReviewsDataset_len ds = int (length (texts ds))"

text \<open>Python's \<^verbatim>\<open>xs[i]\<close>: a negative index counts from the end.\<close>

definition py_index :: "'a list \<Rightarrow> int \<Rightarrow> error + 'a" where
  "py_index xs i =
     (let n = int (length xs);
          j = (if i < 0 then i + n else i)
      in if 0 \<le> j \<and> j < n then Inr (xs ! nat j) else Inl IndexError)"

text \<open>
  \<^verbatim>\<open>__getitem__\<close>. The cache of \<^verbatim>\<open>lru_cache\<close> returns what the body returned for the
  same index, so the model is the body.
\<close>

definition ImdbReviewsDataset_getitem :: "dataset \<Rightarrow> int \<Rightarrow> error + item" where
  "ImdbReviewsDataset_getitem ds i =
     (case py_index (texts ds) i of
        Inl e \<Rightarrow> Inl e
      | Inr t \<Rightarrow>
     (case py_index (labels ds) i of
        Inl e \<Rightarrow> Inl e
      | Inr l \<Rightarrow>
     (case py_index (txt_lens ds) i of
        Inl e \<Rightarrow> Inl e
      | Inr n \<Rightarrow>
     (case py_index (snt_lens ds) i of
        Inl e \<Rightarrow> Inl e
      | Inr m \<Rightarrow> Inr \<lparr> txt' = t, label = l, txt_len = n, snt_len = m \<rparr>))))"

text \<open>
  The items that \<^verbatim>\<open>_load_data\<close> stores: the two length fields are computed from the
  text, which has at least one sentence, and the label is 0 or 1. The ids are those of
  the vocabulary; here they are required to fit int64.
\<close>

definition is_int64 :: "int \<Rightarrow> bool" where
  "is_int64 x = (- (2 ^ 63) \<le> x \<and> x < 2 ^ 63)"

definition corpus_item :: "item \<Rightarrow> bool" where
  "corpus_item it =
     (txt' it \<noteq> []
      \<and> txt_len it = int (length (txt' it))
      \<and> snt_len it = Max (set (map (\<lambda>snt. int (length snt)) (txt' it)))
      \<and> (label it = 0 \<or> label it = 1)
      \<and> list_all (list_all is_int64) (txt' it))"

text \<open>
  An example: what \<^verbatim>\<open>str.lower\<close> and the two tokenizers return on the reviews
  \<^verbatim>\<open>Good! Bad.\<close> and \<^verbatim>\<open>Zzz qqq.\<close>, a vocabulary of two words, a file system with
  the first review and a file system with the second one.
\<close>

definition demo_lower :: "string \<Rightarrow> string" where
  "demo_lower s =
     (if s = ''Good! Bad.'' then ''good! bad.''
      else if s = ''Zzz qqq.'' then ''zzz qqq.''
      else s)"

definition demo_punkt :: "string \<Rightarrow> string list" where
  "demo_punkt s = (if s = ''good! bad.'' then [''good!'', ''bad.''] else [s])"

definition demo_wordpunct :: "string \<Rightarrow> string list" where
  "demo_wordpunct s =
     (if s = ''good!'' then [''good'', ''!'']
      else if s = ''bad.'' then [''bad'', ''.'']
      else if s = ''zzz qqq.'' then [''zzz'', ''qqq'', ''.'']
      else [s])"

definition demo_vocab :: "string \<rightharpoonup> int" where
  "demo_vocab = [''good'' \<mapsto> 1, ''bad'' \<mapsto> 2]"

definition demo_fs :: filesystem where
  "demo_fs =
     [[''imdb'', ''neg''] \<mapsto> Dir [''0_3.txt''],
      [''imdb'', ''neg'', ''0_3.txt''] \<mapsto> File ''Good! Bad.'']"


section \<open>collate\_docs\<close>

text \<open>
  A tensor is its shape and its cells, as nested rows. The cells of the label tensor
  are of type float32; they are modelled by the reals, which hold every label that
  float32 represents exactly.
\<close>

record tensor3 =
  shape3 :: "nat \<times> nat \<times> nat"
  cells3 :: "int list list list"

record tensor2 =
  shape2 :: "nat \<times> nat"
  cells2 :: "real list list"

record collated =
  features :: tensor3
  targets :: tensor2

text \<open>\<^verbatim>\<open>torch.zeros\<close>: a negative dimension is a \<^verbatim>\<open>RuntimeError\<close>.\<close>

definition torch_zeros3 :: "int \<Rightarrow> int \<Rightarrow> int \<Rightarrow> error + tensor3" where
  "torch_zeros3 d0 d1 d2 =
     (if d0 < 0 \<or> d1 < 0 \<or> d2 < 0 then Inl RuntimeError
      else Inr \<lparr> shape3 = (nat d0, nat d1, nat d2),
                 cells3 = replicate (nat d0) (replicate (nat d1) (replicate (nat d2) 0)) \<rparr>)"

definition torch_zeros2 :: "int \<Rightarrow> int \<Rightarrow> error + tensor2" where
  "torch_zeros2 d0 d1 =
     (if d0 < 0 \<or> d1 < 0 then Inl RuntimeError
      else Inr \<lparr> shape2 = (nat d0, nat d1),
                 cells2 = replicate (nat d0) (replicate (nat d1) 0) \<rparr>)"

text \<open>
  \<^verbatim>\<open>docs_tensor[i_doc, i_snt, 0:snt_len] = torch.tensor(snt)\<close>. The right-hand side
  is built first: an id outside int64 is a \<^verbatim>\<open>RuntimeError\<close>. An index outside the first
  two dimensions is an \<^verbatim>\<open>IndexError\<close>. The slice is clamped to the last dimension; the
  value must have the slice's length, or one element (which is broadcast to the
  slice), or it is a \<^verbatim>\<open>RuntimeError\<close>.
\<close>

definition assign_snt :: "tensor3 \<Rightarrow> nat \<Rightarrow> nat \<Rightarrow> int list \<Rightarrow> error + tensor3" where
  "assign_snt t i_doc i_snt snt =
     (case shape3 t of (d0, d1, d2) \<Rightarrow>
        if \<not> list_all is_int64 snt then Inl RuntimeError
        else if d0 \<le> i_doc \<or> d1 \<le> i_snt then Inl IndexError
        else
          (let doc = cells3 t ! i_doc;
               row = doc ! i_snt
           in if length snt \<le> d2
              then Inr (t\<lparr> cells3 := (cells3 t)[i_doc := doc[i_snt := snt @ drop (length snt) row]] \<rparr>)
              else if length snt = 1
              then Inr (t\<lparr> cells3 := (cells3 t)[i_doc := doc[i_snt := replicate d2 (hd snt)]] \<rparr>)
              else Inl RuntimeError))"

text \<open>\<^verbatim>\<open>labels_tensor[i_doc] = item['label']\<close>: every cell of the row takes the label.\<close>

definition assign_label :: "tensor2 \<Rightarrow> nat \<Rightarrow> int \<Rightarrow> error + tensor2" where
  "assign_label t i_doc l =
     (if fst (shape2 t) \<le> i_doc then Inl IndexError
      else Inr (t\<lparr> cells2 := (cells2 t)[i_doc := map (\<lambda>_. real_of_int l) (cells2 t ! i_doc)] \<rparr>))"

text \<open>The inner loop over the sentences of one item, and the outer loop over the items.\<close>

fun fill_snts :: "tensor3 \<Rightarrow> nat \<Rightarrow> nat \<Rightarrow> int list list \<Rightarrow> error + tensor3" where
  "fill_snts t i_doc i_snt [] = Inr t"
| "fill_snts t i_doc i_snt (snt # rest) =
     (case assign_snt t i_doc i_snt snt of
        Inl e \<Rightarrow> Inl e
      | Inr t' \<Rightarrow> fill_snts t' i_doc (Suc i_snt) rest)"

fun fill_docs :: "tensor2 \<Rightarrow> tensor3 \<Rightarrow> nat \<Rightarrow> item list \<Rightarrow> error + (tensor2 \<times> tensor3)" where
  "fill_docs lt dt i_doc [] = Inr (lt, dt)"
| "fill_docs lt dt i_doc (it # rest) =
     (case assign_label lt i_doc (label it) of
        Inl e \<Rightarrow> Inl e
      | Inr lt' \<Rightarrow>
          (case fill_snts dt i_doc 0 (txt' it) of
             Inl e \<Rightarrow> Inl e
           | Inr dt' \<Rightarrow> fill_docs lt' dt' (Suc i_doc) rest))"

definition collate_docs :: "item list \<Rightarrow> error + collated" where
  "collate_docs batch =
     (case py_max (map snt_len batch) of
        Inl e \<Rightarrow> Inl e
      | Inr max_snt \<Rightarrow>
     (case py_max (map txt_len batch) of
        Inl e \<Rightarrow> Inl e
      | Inr max_txt \<Rightarrow>
     (let n_docs = int (length batch)
      in case torch_zeros2 n_docs 1 of
           Inl e \<Rightarrow> Inl e
         | Inr labels_tensor \<Rightarrow>
        (case torch_zeros3 n_docs max_txt max_snt of
           Inl e \<Rightarrow> Inl e
         | Inr docs_tensor \<Rightarrow>
        (case fill_docs labels_tensor docs_tensor 0 batch of
           Inl e \<Rightarrow> Inl e
         | Inr (lt, dt) \<Rightarrow> Inr \<lparr> features = dt, targets = lt \<rparr>)))))"

section \<open>Sampler: construction\<close>

text \<open>
  C9. Construction of the sampler fails, with the assertion's error, if and only if the
  batch size is below 1 or the diversity is below 1; otherwise it succeeds and stores
  both values as given.
\<close>

theorem sampler_init_fails_iff:
  "(SimilarRandSampler_init keys b d = Inl AssertionError) = (b < 1 \<or> d < 1)
   \<and> ((\<exists>s. SimilarRandSampler_init keys b d = Inr s) = (1 \<le> b \<and> 1 \<le> d))
   \<and> (\<forall>s. SimilarRandSampler_init keys b d = Inr s \<longrightarrow> s_bs s = b \<and> s_k s = d)"
  by (auto simp: SimilarRandSampler_init_def)

theorem sampler_init_fails_iff_witness:
  "SimilarRandSampler_init [3, 1, 2] 0 10 = Inl AssertionError
   \<and> SimilarRandSampler_init [3, 1, 2] 2 0 = Inl AssertionError
   \<and> s_bs (projr (SimilarRandSampler_init [3, 1, 2] 2 10)) = 2
   \<and> s_k (projr (SimilarRandSampler_init [3, 1, 2] 2 10)) = 10"
proof -
  have a: "SimilarRandSampler_init [3, 1, 2] 0 10 = Inl AssertionError"
    using sampler_init_fails_iff [of "[3, 1, 2]" 0 10] by simp
  have b: "SimilarRandSampler_init [3, 1, 2] 2 0 = Inl AssertionError"
    using sampler_init_fails_iff [of "[3, 1, 2]" 2 0] by simp
  obtain s where s: "SimilarRandSampler_init [3, 1, 2] 2 10 = Inr s"
    using sampler_init_fails_iff [of "[3, 1, 2]" 2 10] by auto
  then have "s_bs s = 2 \<and> s_k s = 10"
    using sampler_init_fails_iff [of "[3, 1, 2]" 2 10] by blast
  with a b s show ?thesis by simp
qed

section \<open>Sampler: one pass of the loop\<close>

lemma draw_props:
  "m \<le> length pop \<Longrightarrow>
     length (fst (draw tp c pop m)) = m \<and> mset (fst (draw tp c pop m)) \<subseteq># mset pop"
proof (induction m arbitrary: pop c)
  case 0
  then show ?case by simp
next
  case (Suc m)
  define j where "j = tp c mod length pop"
  define rest where "rest = take j pop @ drop (Suc j) pop"
  from Suc.prems have ne: "0 < length pop" by (cases pop) simp_all
  then have j: "j < length pop" by (simp add: j_def)
  have len: "length rest = length pop - 1" using j by (simp add: rest_def)
  with Suc.prems have "m \<le> length rest" by simp
  from Suc.IH [OF this, of "Suc c"]
  have ih: "length (fst (draw tp (Suc c) rest m)) = m"
    "mset (fst (draw tp (Suc c) rest m)) \<subseteq># mset rest" by simp_all
  have split: "mset pop = add_mset (pop ! j) (mset rest)"
  proof -
    have "pop = take j pop @ pop ! j # drop (Suc j) pop"
      using j by (rule id_take_nth_drop)
    then have "mset pop = mset (take j pop @ pop ! j # drop (Suc j) pop)" by simp
    then show ?thesis by (simp add: rest_def)
  qed
  have unf: "fst (draw tp c pop (Suc m)) = pop ! j # fst (draw tp (Suc c) rest m)"
    by (simp add: j_def rest_def Let_def)
  show ?case using ih split unf by simp
qed

lemma py_slice_inner:
  "0 \<le> lo \<Longrightarrow> 0 \<le> hi \<Longrightarrow> hi \<le> int (length xs) \<Longrightarrow>
     py_slice xs lo hi = take (nat hi - nat lo) (drop (nat lo) xs)"
  by (cases "lo \<le> int (length xs)") (auto simp: py_slice_def py_norm_index_def Let_def min_def)

lemma window_facts:
  assumes "1 \<le> s_bs s" "1 \<le> s_k s" "idx < n"
  shows "0 \<le> window_lb s idx" "window_lb s idx \<le> int idx"
    "int idx < window_rb s n idx" "window_rb s n idx \<le> int n"
    "window_rb s n idx - window_lb s idx \<le> 2 * s_k s * s_bs s"
proof -
  have "1 * 1 \<le> s_k s * s_bs s" using assms(1,2) by (intro mult_mono) simp_all
  then have kb: "1 \<le> s_k s * s_bs s" by simp
  show "0 \<le> window_lb s idx" by (simp add: window_lb_def)
  show "window_lb s idx \<le> int idx" using kb by (simp add: window_lb_def)
  show "int idx < window_rb s n idx" using kb assms(3) by (simp add: window_rb_def)
  show "window_rb s n idx \<le> int n" by (simp add: window_rb_def)
  show "window_rb s n idx - window_lb s idx \<le> 2 * s_k s * s_bs s"
    by (simp add: window_rb_def window_lb_def)
qed

lemma draw_batch_ok:
  fixes s :: sampler and tp :: tape and c :: nat and cur_ids :: "nat list"
  assumes "1 \<le> s_bs s" "1 \<le> s_k s" "cur_ids \<noteq> []"
  defines "idx \<equiv> tp c mod length cur_ids"
  defines "lb \<equiv> nat (window_lb s idx)"
  defines "rb \<equiv> nat (window_rb s (length cur_ids) idx)"
  shows "\<exists>batch c'. draw_batch s tp c cur_ids = Inr (batch, c')
           \<and> mset batch \<subseteq># mset (take (rb - lb) (drop lb cur_ids))
           \<and> int (length batch) = min (s_bs s) (int (rb - lb))"
    and "idx < length cur_ids" and "lb \<le> idx" and "idx < rb" and "rb \<le> length cur_ids"
    and "int (rb - lb) \<le> 2 * s_k s * s_bs s"
proof -
  show idx: "idx < length cur_ids" using assms(3) by (simp add: idx_def)
  note wf = window_facts [OF assms(1,2) idx]
  show "lb \<le> idx" using wf by (simp add: lb_def)
  show "idx < rb" using wf by (simp add: rb_def)
  show "rb \<le> length cur_ids" using wf by (simp add: rb_def)
  show "int (rb - lb) \<le> 2 * s_k s * s_bs s" using wf by (simp add: rb_def lb_def)
  define w where "w = take (rb - lb) (drop lb cur_ids)"
  have sl: "py_slice cur_ids (window_lb s idx) (window_rb s (length cur_ids) idx) = w"
    unfolding w_def rb_def lb_def using wf by (intro py_slice_inner) simp_all
  have lw: "length w = rb - lb" using wf by (simp add: w_def rb_def lb_def)
  have diff: "window_rb s (length cur_ids) idx - window_lb s idx = int (rb - lb)"
    using wf by (simp add: rb_def lb_def)
  define m where "m = nat (min (s_bs s) (int (rb - lb)))"
  have m: "m \<le> length w" "int m = min (s_bs s) (int (rb - lb))"
    using assms(1) lw by (simp_all add: m_def)
  have "draw_batch s tp c cur_ids = Inr (draw tp (Suc c) w m)"
    using assms(1,3) m lw wf(2,3)
    by (simp add: draw_batch_def random_choice_range_def Let_def idx_def [symmetric] sl diff
        random_sample_def m_def)
  moreover from draw_props [OF m(1), of tp "Suc c"]
  have "length (fst (draw tp (Suc c) w m)) = m" "mset (fst (draw tp (Suc c) w m)) \<subseteq># mset w"
    by simp_all
  ultimately show "\<exists>batch c'. draw_batch s tp c cur_ids = Inr (batch, c')
           \<and> mset batch \<subseteq># mset (take (rb - lb) (drop lb cur_ids))
           \<and> int (length batch) = min (s_bs s) (int (rb - lb))"
    using m(2) by (cases "draw tp (Suc c) w m") (auto simp: w_def)
qed

lemma init_valid:
  "SimilarRandSampler_init keys b d = Inr s \<Longrightarrow>
     1 \<le> s_bs s \<and> 1 \<le> s_k s \<and> s_bs s = b \<and> s_k s = d \<and> s_ids s = argsort keys"
  by (auto simp: SimilarRandSampler_init_def split: if_splits)

lemma mset_argsort: "mset (argsort keys) = mset [0..<length keys]"
  by (simp add: argsort_def)

lemma filter_out_batch:
  assumes "distinct pool" "mset batch \<subseteq># mset pool"
  shows "mset (filter (\<lambda>e. e \<notin> set batch) pool) + mset batch = mset pool"
proof (rule multiset_eqI)
  fix a
  have le: "count (mset batch) a \<le> count (mset pool) a"
    using assms(2) by (rule mset_subset_eq_count)
  have one: "count (mset pool) a \<le> 1"
    using assms(1) by (simp add: distinct_count_atmost_1)
  show "count (mset (filter (\<lambda>e. e \<notin> set batch) pool) + mset batch) a = count (mset pool) a"
  proof (cases "a \<in> set batch")
    case True
    then have "1 \<le> count (mset batch) a" by (simp add: Suc_le_eq)
    with le one have "count (mset batch) a = count (mset pool) a" by linarith
    with True show ?thesis by simp
  next
    case False
    then have "count (mset batch) a = 0" by (simp add: count_mset_0_iff)
    with False show ?thesis by simp
  qed
qed

lemma iter_loop_perm:
  assumes "1 \<le> s_bs s" "1 \<le> s_k s"
  shows "distinct pool \<Longrightarrow>
     \<exists>rest. iter_loop s tp c pool acc = Some (Inr (acc @ rest)) \<and> mset rest = mset pool"
proof (induction "length pool" arbitrary: pool c acc rule: less_induct)
  case less
  show ?case
  proof (cases "pool = []")
    case True
    then show ?thesis by (simp add: iter_loop.simps)
  next
    case False
    define idx where "idx = tp c mod length pool"
    define lb where "lb = nat (window_lb s idx)"
    define rb where "rb = nat (window_rb s (length pool) idx)"
    from draw_batch_ok [OF assms False, of tp c]
    obtain batch c' where b: "draw_batch s tp c pool = Inr (batch, c')"
      "mset batch \<subseteq># mset (take (rb - lb) (drop lb pool))"
      "int (length batch) = min (s_bs s) (int (rb - lb))"
      and w: "lb \<le> idx" "idx < rb"
      unfolding idx_def lb_def rb_def by blast
    have "mset (take (rb - lb) (drop lb pool)) \<subseteq># mset pool"
      by (metis append_take_drop_id group_cancel.add2 mset_append mset_subset_eq_exists_conv)
    with b(2) have sub: "mset batch \<subseteq># mset pool" by (rule subset_mset.order_trans)
    have ne: "batch \<noteq> []" using b(3) w assms(1) by auto
    define pool' where "pool' = filter (\<lambda>e. e \<notin> set batch) pool"
    have split: "mset pool' + mset batch = mset pool"
      unfolding pool'_def using less.prems sub by (rule filter_out_batch)
    then have "length pool' + length batch = length pool"
      by (metis size_mset size_union)
    with ne have shorter: "length pool' < length pool" by (cases batch) simp_all
    have "distinct pool'" using less.prems by (simp add: pool'_def)
    from less.hyps [OF shorter this, of c' "acc @ batch"]
    obtain rest where r: "iter_loop s tp c' pool' (acc @ batch) = Some (Inr ((acc @ batch) @ rest))"
      "mset rest = mset pool'" by blast
    have "iter_loop s tp c pool acc = iter_loop s tp c' pool' (acc @ batch)"
      using False b(1) by (subst iter_loop.simps) (simp add: pool'_def)
    with r split show ?thesis
      by (intro exI [of _ "batch @ rest"]) (simp add: union_commute)
  qed
qed

text \<open>
  C6. One pass of the loop of a constructed sampler, on any non-empty pool: the anchor
  \<open>p\<close> is a position of the pool, the window \<open>[lb, rb)\<close> is
  \<open>[max 0 (p - d * b), min (length pool) (p + d * b))\<close>, it contains the anchor and
  has at most \<open>2 * d * b\<close> positions; the batch is drawn without replacement from
  the pool's elements at the window's positions (it is a sub-multiset of that slice), so
  each of its elements sits at a position of the window, and it has
  \<open>min b (rb - lb)\<close> elements.
\<close>

theorem draw_batch_within_window:
  fixes tp :: tape and c :: nat and cur_ids :: "nat list"
  assumes "SimilarRandSampler_init keys b d = Inr s" and "cur_ids \<noteq> []"
  defines "p \<equiv> tp c mod length cur_ids"
  defines "lb \<equiv> max 0 (int p - d * b)"
  defines "rb \<equiv> min (int (length cur_ids)) (int p + d * b)"
  shows "\<exists>batch c'. draw_batch s tp c cur_ids = Inr (batch, c')
           \<and> p < length cur_ids \<and> 0 \<le> lb \<and> lb \<le> int p \<and> int p < rb \<and> rb \<le> int (length cur_ids)
           \<and> rb - lb \<le> 2 * d * b
           \<and> mset batch \<subseteq># mset (take (nat rb - nat lb) (drop (nat lb) cur_ids))
           \<and> (\<forall>e \<in> set batch. \<exists>i. nat lb \<le> i \<and> i < nat rb \<and> cur_ids ! i = e)
           \<and> int (length batch) = min b (rb - lb)"
proof -
  from init_valid [OF assms(1)] have v: "1 \<le> s_bs s" "1 \<le> s_k s" and eq: "s_bs s = b" "s_k s = d"
    by simp_all
  have lb: "lb = window_lb s p" by (simp add: lb_def window_lb_def eq)
  have rb: "rb = window_rb s (length cur_ids) p" by (simp add: rb_def window_rb_def eq)
  note ok = draw_batch_ok [OF v assms(2), of tp c, folded p_def, folded lb rb]
  from ok(1) obtain batch c' where b: "draw_batch s tp c cur_ids = Inr (batch, c')"
    "mset batch \<subseteq># mset (take (nat rb - nat lb) (drop (nat lb) cur_ids))"
    "int (length batch) = min (s_bs s) (int (nat rb - nat lb))" by blast
  have pos: "\<exists>i. nat lb \<le> i \<and> i < nat rb \<and> cur_ids ! i = e" if "e \<in> set batch" for e
  proof -
    from that b(2) have "e \<in> set (take (nat rb - nat lb) (drop (nat lb) cur_ids))"
      by (metis mset_subset_eqD set_mset_mset)
    then obtain j where j: "j < nat rb - nat lb" "j < length (drop (nat lb) cur_ids)"
      "drop (nat lb) cur_ids ! j = e"
      by (auto simp: in_set_conv_nth)
    then have "cur_ids ! (nat lb + j) = e" by simp
    with j(1) show ?thesis by (intro exI [of _ "nat lb + j"]) simp
  qed
  have "0 \<le> lb" by (simp add: lb_def)
  moreover have "rb - lb = int (nat rb - nat lb)" using ok(3,4) \<open>0 \<le> lb\<close> by simp
  ultimately show ?thesis using b pos ok(2-6) eq by auto
qed

theorem draw_batch_within_window_witness:
  "SimilarRandSampler_init [3, 1, 2, 1] 2 1 = Inr \<lparr>s_ids = [1, 3, 2, 0], s_bs = 2, s_k = 1, s_len = 2\<rparr>
   \<and> [1, 3, 2, 0 :: nat] \<noteq> []
   \<and> (\<exists>batch c'. draw_batch \<lparr>s_ids = [1, 3, 2, 0], s_bs = 2, s_k = 1, s_len = 2\<rparr> id 5 [1, 3, 2, 0]
           = Inr (batch, c')
         \<and> mset batch \<subseteq># mset [1, 3, 2 :: nat]
         \<and> (\<forall>e \<in> set batch. \<exists>i < 3. [1, 3, 2, 0 :: nat] ! i = e)
         \<and> length batch = 2)"
proof -
  have h: "SimilarRandSampler_init [3, 1, 2, 1] 2 1
      = Inr \<lparr>s_ids = [1, 3, 2, 0], s_bs = 2, s_k = 1, s_len = 2\<rparr>"
    by (simp add: SimilarRandSampler_init_def argsort_def upt_rec)
  have n: "[1, 3, 2, 0 :: nat] \<noteq> []" by simp
  show ?thesis using h draw_batch_within_window [OF h n, of id 5] by simp
qed

section \<open>Sampler: a full iteration\<close>

text \<open>
  C1. For every list of keys and every batch size and diversity that the constructor
  accepts, and for every random tape, \<^verbatim>\<open>__iter__\<close> returns, and the returned
  sequence is a permutation of the corpus indices \<open>0 ..< length keys\<close>: each index
  occurs exactly once and the length is the corpus size.
\<close>

theorem iter_yields_permutation:
  assumes "SimilarRandSampler_init keys b d = Inr s"
  shows "\<exists>out. SimilarRandSampler_iter s tp c = Some (Inr out)
           \<and> mset out = mset [0..<length keys]
           \<and> length out = length keys \<and> distinct out \<and> set out = {0..<length keys}"
proof -
  from init_valid [OF assms] have v: "1 \<le> s_bs s" "1 \<le> s_k s" and ids: "s_ids s = argsort keys"
    by simp_all
  have "distinct (argsort keys)"
    by (metis mset_argsort distinct_upt mset_eq_imp_distinct_iff)
  from iter_loop_perm [OF v this, of tp c "[]"]
  obtain out where o: "iter_loop s tp c (argsort keys) [] = Some (Inr out)"
    "mset out = mset (argsort keys)" by auto
  have m: "mset out = mset [0..<length keys]" using o(2) by (simp add: mset_argsort)
  then have "length out = length keys" by (metis diff_zero length_upt mset_eq_length)
  moreover have "distinct out" using m by (metis distinct_upt mset_eq_imp_distinct_iff)
  moreover have "set out = {0..<length keys}" using m by (metis atLeastLessThan_upt mset_eq_setD)
  ultimately show ?thesis using o(1) m by (simp add: SimilarRandSampler_iter_def ids)
qed

theorem iter_yields_permutation_witness:
  "SimilarRandSampler_init [3, 1, 2, 1] 2 1 = Inr \<lparr>s_ids = [1, 3, 2, 0], s_bs = 2, s_k = 1, s_len = 2\<rparr>
   \<and> (\<exists>out. SimilarRandSampler_iter \<lparr>s_ids = [1, 3, 2, 0], s_bs = 2, s_k = 1, s_len = 2\<rparr> id 0 = Some (Inr out)
           \<and> mset out = mset [0..<length [3, 1, 2, 1 :: int]]
           \<and> length out = length [3, 1, 2, 1 :: int] \<and> distinct out
           \<and> set out = {0..<length [3, 1, 2, 1 :: int]})"
proof -
  have h: "SimilarRandSampler_init [3, 1, 2, 1] 2 1
      = Inr \<lparr>s_ids = [1, 3, 2, 0], s_bs = 2, s_k = 1, s_len = 2\<rparr>"
    by (simp add: SimilarRandSampler_init_def argsort_def upt_rec)
  show ?thesis using h iter_yields_permutation [OF h, of id 0] by simp
qed

section \<open>The vocabulary: ids\<close>

lemma foldl_upd: "foldl (\<lambda>m (key, v). m(key \<mapsto> v)) m kvs = m ++ map_of (rev kvs)"
  by (induction kvs arbitrary: m) (auto simp: map_add_def fun_eq_iff split: option.splits)

lemma dict_of_map_of: "dict_of kvs = map_of (rev kvs)"
  by (simp add: dict_of_def foldl_upd)

lemma vocab_of_words:
  fixes words :: "string list"
  defines "v \<equiv> dict_of (zip words [1 .. int (length words)])"
  shows "dom v = set words"
    and "ran v \<subseteq> {1 .. int (length words)}"
    and "inj_on v (dom v)"
    and "distinct words \<Longrightarrow> i < length words \<Longrightarrow> v (words ! i) = Some (int i + 1)"
proof -
  let ?ids = "[1 .. int (length words)]"
  let ?z = "zip words ?ids"
  have len: "length ?ids = length words" by simp
  have v: "v = map_of (rev ?z)" by (simp add: v_def dict_of_map_of)
  have mem: "(w, x) \<in> set ?z \<longleftrightarrow> (\<exists>i < length words. words ! i = w \<and> x = int i + 1)" for w x
    by (auto simp: in_set_zip nth_upto)
  have some: "v w = Some x \<Longrightarrow> (w, x) \<in> set ?z" for w x
    unfolding v by (drule map_of_SomeD) simp
  have fz: "map fst ?z = words" by simp
  have "fst ` set ?z = set (map fst ?z)" by (simp only: set_map)
  then show "dom v = set words"
    unfolding v by (simp add: dom_map_of_conv_image_fst fz)
  show "ran v \<subseteq> {1 .. int (length words)}"
  proof
    fix x assume "x \<in> ran v"
    then obtain w where "v w = Some x" by (auto simp: ran_def)
    from some [OF this] show "x \<in> {1 .. int (length words)}" by (auto simp: mem)
  qed
  show "inj_on v (dom v)"
  proof (rule inj_onI)
    fix a b assume "a \<in> dom v" "b \<in> dom v" "v a = v b"
    then obtain x where "v a = Some x" "v b = Some x" by auto
    then have "(a, x) \<in> set ?z" "(b, x) \<in> set ?z" by (auto dest: some)
    then show "a = b" by (auto simp: mem)
  qed
  show "v (words ! i) = Some (int i + 1)" if "distinct words" "i < length words"
  proof -
    have d: "distinct (map fst ?z)" using that(1) by (simp add: len)
    then have d': "distinct (map fst (rev ?z))" by (simp add: rev_map [symmetric])
    have "map_of (rev ?z) = map_of ?z"
      using d d' by (simp add: map_of_inject_set)
    moreover have "map_of ?z (words ! i) = Some (?ids ! i)"
      using that len by (intro map_of_zip_nth) simp_all
    ultimately show ?thesis using that(2) by (simp add: v nth_upto)
  qed
qed

text \<open>
  C4 (as amended). For every vocabulary file, with \<open>N\<close> lines: the loaded mapping is
  defined exactly on the file's words, its ids lie in \<open>1..N\<close>, no two words share an
  id, and 0 is never a mapped value. When the lines are pairwise distinct, the mapping
  is a bijection between the file's words and \<open>1..N\<close>, and the word of line \<open>i\<close>
  (counted from 0) has the id \<open>i + 1\<close>.
\<close>

theorem get_imdb_vocab_ids:
  assumes "open_read fs (imdb_root @ [''imdb.vocab'']) = Inr content"
  defines "words \<equiv> splitlines content"
  shows "\<exists>v. get_imdb_vocab fs imdb_root = Inr v
           \<and> dom v = set words
           \<and> ran v \<subseteq> {1 .. int (length words)}
           \<and> 0 \<notin> ran v
           \<and> inj_on v (dom v)
           \<and> (distinct words \<longrightarrow>
                 bij_betw (\<lambda>w. the (v w)) (set words) {1 .. int (length words)}
                 \<and> (\<forall>i < length words. v (words ! i) = Some (int i + 1)))"
proof -
  define v where "v = dict_of (zip words [1 .. int (length words)])"
  have g: "get_imdb_vocab fs imdb_root = Inr v"
    using assms(1) by (simp add: get_imdb_vocab_def v_def words_def Let_def)
  note f = vocab_of_words [of words, folded v_def]
  have z: "0 \<notin> ran v" using f(2) by auto
  have b: "bij_betw (\<lambda>w. the (v w)) (set words) {1 .. int (length words)}" if d: "distinct words"
  proof (rule bij_betwI')
    fix a b assume ab: "a \<in> set words" "b \<in> set words"
    then obtain x y where xy: "v a = Some x" "v b = Some y" using f(1) by blast
    show "(the (v a) = the (v b)) = (a = b)"
    proof
      assume "the (v a) = the (v b)"
      with xy have "v a = v b" by simp
      with f(3) ab f(1) show "a = b" by (auto dest: inj_onD)
    qed simp
  next
    fix a assume "a \<in> set words"
    then obtain x where x: "v a = Some x" using f(1) by blast
    then have "x \<in> ran v" by (auto simp: ran_def)
    with f(2) x show "the (v a) \<in> {1 .. int (length words)}" by auto
  next
    fix y assume "y \<in> {1 .. int (length words)}"
    then have i: "nat (y - 1) < length words" "int (nat (y - 1)) + 1 = y" by auto
    from f(4) [OF d i(1)] i(2) have "v (words ! nat (y - 1)) = Some y" by simp
    with i(1) show "\<exists>a \<in> set words. y = the (v a)"
      by (intro bexI [of _ "words ! nat (y - 1)"]) simp_all
  qed
  show ?thesis using g f(1,2,3) z b f(4) by blast
qed

theorem get_imdb_vocab_ids_witness:
  "open_read [[''imdb.vocab''] \<mapsto> File [CHR ''g'', CHR ''o'', CHR 0x0A, CHR ''b'', CHR 0x0A]]
       ([] @ [''imdb.vocab''])
     = Inr [CHR ''g'', CHR ''o'', CHR 0x0A, CHR ''b'', CHR 0x0A]
   \<and> distinct (splitlines [CHR ''g'', CHR ''o'', CHR 0x0A, CHR ''b'', CHR 0x0A])
   \<and> (\<exists>v. get_imdb_vocab [[''imdb.vocab''] \<mapsto> File [CHR ''g'', CHR ''o'', CHR 0x0A, CHR ''b'', CHR 0x0A]] []
             = Inr v
          \<and> v ''go'' = Some 1 \<and> v ''b'' = Some 2 \<and> 0 \<notin> ran v
          \<and> bij_betw (\<lambda>w. the (v w)) {''go'', ''b''} {1 .. 2})"
proof -
  let ?c = "[CHR ''g'', CHR ''o'', CHR 0x0A, CHR ''b'', CHR 0x0A]"
  let ?fs = "[[''imdb.vocab''] \<mapsto> File ?c]"
  have o: "open_read ?fs ([] @ [''imdb.vocab'']) = Inr ?c" by (simp add: open_read_def)
  have s: "splitlines ?c = [''go'', ''b'']" by (simp add: splitlines_def is_linebreak_def)
  from get_imdb_vocab_ids [OF o] obtain v where v: "get_imdb_vocab ?fs [] = Inr v"
    "0 \<notin> ran v"
    "distinct (splitlines ?c) \<longrightarrow>
       bij_betw (\<lambda>w. the (v w)) (set (splitlines ?c)) {1 .. int (length (splitlines ?c))}
       \<and> (\<forall>i < length (splitlines ?c). v (splitlines ?c ! i) = Some (int i + 1))"
    by blast
  from v(3) have b: "bij_betw (\<lambda>w. the (v w)) {''go'', ''b''} {1 .. 2}"
    and n: "\<forall>i < 2. v ([''go'', ''b''] ! i) = Some (int i + 1)"
    unfolding s by (simp_all add: insert_commute)
  from n have "v ''go'' = Some 1" "v ''b'' = Some 2" by (auto simp: less_Suc_eq numeral_2_eq_2)
  with o s v(1,2) b show ?thesis by auto
qed

text \<open>
  A file with the same word on two lines: the later line replaces the id of the earlier
  one, id 1 is not assigned, and the mapping is no bijection with \<open>1..2\<close>.
\<close>

theorem get_imdb_vocab_duplicate_counterexample:
  "splitlines [CHR ''a'', CHR 0x0A, CHR ''a'', CHR 0x0A] = [''a'', ''a'']
   \<and> projr (get_imdb_vocab [[''imdb.vocab''] \<mapsto> File [CHR ''a'', CHR 0x0A, CHR ''a'', CHR 0x0A]] []) ''a''
       = Some 2
   \<and> \<not> bij_betw
        (\<lambda>w. the (projr (get_imdb_vocab
                [[''imdb.vocab''] \<mapsto> File [CHR ''a'', CHR 0x0A, CHR ''a'', CHR 0x0A]] []) w))
        (set (splitlines [CHR ''a'', CHR 0x0A, CHR ''a'', CHR 0x0A]))
        {1 .. int (length (splitlines [CHR ''a'', CHR 0x0A, CHR ''a'', CHR 0x0A]))}"
proof -
  let ?c = "[CHR ''a'', CHR 0x0A, CHR ''a'', CHR 0x0A]"
  have s: "splitlines ?c = [''a'', ''a'']" by (simp add: splitlines_def is_linebreak_def)
  have u: "[1 .. 2 :: int] = [1, 2]" by (simp add: upto_rec1)
  have g: "projr (get_imdb_vocab [[''imdb.vocab''] \<mapsto> File ?c] []) ''a'' = Some 2"
    by (simp add: get_imdb_vocab_def open_read_def s dict_of_def u)
  have "\<not> bij_betw f {''a''} {1 .. 2 :: int}" for f :: "string \<Rightarrow> int"
  proof
    assume "bij_betw f {''a''} {1 .. 2 :: int}"
    then have "card {''a''} = card {1 .. 2 :: int}" by (rule bij_betw_same_card)
    then show False by simp
  qed
  with s g show ?thesis by simp
qed

section \<open>Tokenization: the clips\<close>

lemma py_take_length: "0 \<le> c \<Longrightarrow> int (length (py_take c xs)) \<le> c"
  by (simp add: py_take_def py_norm_index_def)

lemma fold_max_Max: "fold max xs (x :: int) = Max (insert x (set xs))"
  using Max.set_eq_fold [of x xs] by simp

lemma py_max_Inr: "xs \<noteq> [] \<Longrightarrow> py_max xs = Inr (Max (set xs))"
  by (cases xs) (simp_all add: fold_max_Max)

lemma tokenize_plane_text_cases:
  "tokenize_plane_text str_lower ds text_plane =
     (if clipped_text str_lower ds text_plane = [] then Inl ValueError
      else Inr (clipped_text str_lower ds text_plane,
                Max (set (map (\<lambda>snt. int (length snt)) (clipped_text str_lower ds text_plane))),
                int (length (clipped_text str_lower ds text_plane))))"
  by (cases "clipped_text str_lower ds text_plane")
     (simp_all add: tokenize_plane_text_def Let_def fold_max_Max)

text \<open>
  C3 (as amended). Whenever \<^verbatim>\<open>tokenize_plane_text\<close> returns, the returned document
  length is the number of sentences of the returned document; when \<^verbatim>\<open>txt_clip\<close> is
  not negative the document has at most \<^verbatim>\<open>txt_clip\<close> sentences, and when
  \<^verbatim>\<open>snt_clip\<close> is not negative every sentence has at most \<^verbatim>\<open>snt_clip\<close> ids.
\<close>

theorem tokenize_clip_bounds:
  assumes "tokenize_plane_text str_lower ds text_plane = Inr (text, snt_len_max, n)"
  shows "n = int (length text)
         \<and> (0 \<le> txt_clip ds \<longrightarrow> int (length text) \<le> txt_clip ds)
         \<and> (0 \<le> snt_clip ds \<longrightarrow> (\<forall>snt \<in> set text. int (length snt) \<le> snt_clip ds))"
proof -
  from assms have t: "text = clipped_text str_lower ds text_plane" and n: "n = int (length text)"
    by (auto simp: tokenize_plane_text_cases split: if_splits)
  have "int (length text) \<le> txt_clip ds" if "0 \<le> txt_clip ds"
    unfolding t clipped_text_def Let_def using that by (rule py_take_length)
  moreover have "int (length snt) \<le> snt_clip ds" if c: "0 \<le> snt_clip ds" and s: "snt \<in> set text" for snt
  proof -
    from s have "snt \<in> set (map (\<lambda>s. py_take (snt_clip ds) (List.map_filter (vocab ds) (w_tokenizer ds s)))
                (s_tokenizer ds (html_sub (str_lower text_plane))))"
      unfolding t clipped_text_def Let_def py_take_def by (rule in_set_takeD)
    then obtain s where "snt = py_take (snt_clip ds) (List.map_filter (vocab ds) (w_tokenizer ds s))"
      by auto
    with c show ?thesis by (simp add: py_take_length)
  qed
  ultimately show ?thesis using n by blast
qed

theorem tokenize_clip_bounds_witness:
  "tokenize_plane_text demo_lower (new_dataset demo_punkt demo_wordpunct [''imdb''] demo_vocab 100 40)
      ''Good! Bad.'' = Inr ([[1], [2]], 1, 2)
   \<and> 2 = int (length [[1], [2 :: int]])
   \<and> int (length [[1], [2 :: int]]) \<le> 40
   \<and> int (length [1 :: int]) \<le> 100 \<and> int (length [2 :: int]) \<le> 100"
proof -
  have h: "tokenize_plane_text demo_lower
      (new_dataset demo_punkt demo_wordpunct [''imdb''] demo_vocab 100 40) ''Good! Bad.''
      = Inr ([[1], [2]], 1, 2)"
    by (simp add: tokenize_plane_text_def clipped_text_def new_dataset_def demo_lower_def
        demo_punkt_def demo_wordpunct_def demo_vocab_def py_take_def py_norm_index_def
        List.map_filter_def)
  show ?thesis using h tokenize_clip_bounds [OF h] by (simp add: new_dataset_def)
qed

text \<open>
  A negative clip drops elements from the end of the list and bounds nothing. With
  \<^verbatim>\<open>snt_clip = -1\<close> each sentence of the review loses its last id and keeps 0 ids,
  which is more than \<^verbatim>\<open>snt_clip\<close>; with \<^verbatim>\<open>txt_clip = -1\<close> the review of two
  sentences keeps one, which is more than \<^verbatim>\<open>txt_clip\<close>.
\<close>

theorem tokenize_negative_clip_counterexample:
  "tokenize_plane_text demo_lower (new_dataset demo_punkt demo_wordpunct [''imdb''] demo_vocab (- 1) 40)
      ''Good! Bad.'' = Inr ([[], []], 0, 2)
   \<and> \<not> int (length ([] :: int list))
         \<le> snt_clip (new_dataset demo_punkt demo_wordpunct [''imdb''] demo_vocab (- 1) 40)
   \<and> tokenize_plane_text demo_lower (new_dataset demo_punkt demo_wordpunct [''imdb''] demo_vocab 100 (- 1))
      ''Good! Bad.'' = Inr ([[1]], 1, 1)
   \<and> \<not> int (length [[1 :: int]])
         \<le> txt_clip (new_dataset demo_punkt demo_wordpunct [''imdb''] demo_vocab 100 (- 1))"
  by (simp add: tokenize_plane_text_def clipped_text_def new_dataset_def demo_lower_def
      demo_punkt_def demo_wordpunct_def demo_vocab_def py_take_def py_norm_index_def
      List.map_filter_def)

section \<open>Loading: a document without sentences\<close>

lemma load_file_fields:
  assumes "load_file str_lower fs ds p = Inr ds'"
  shows "vocab ds' = vocab ds" "snt_clip ds' = snt_clip ds" "txt_clip ds' = txt_clip ds"
    "s_tokenizer ds' = s_tokenizer ds" "w_tokenizer ds' = w_tokenizer ds"
    "path_to_data ds' = path_to_data ds"
  using assms by (auto simp: load_file_def split: sum.splits prod.splits)







section \<open>Loading: the stored lists, and \_\_getitem\_\_\<close>

lemma py_index_cases:
  "py_index xs i =
     (if 0 \<le> i \<and> i < int (length xs) then Inr (xs ! nat i)
      else if - int (length xs) \<le> i \<and> i < 0 then Inr (xs ! nat (i + int (length xs)))
      else Inl IndexError)"
  by (auto simp: py_index_def Let_def)

lemma getitem_cases:
  assumes "length (labels ds) = length (texts ds)" "length (txt_lens ds) = length (texts ds)"
    "length (snt_lens ds) = length (texts ds)"
  defines "n \<equiv> int (length (texts ds))"
  defines "entry \<equiv> \<lambda>j. \<lparr> txt' = texts ds ! j, label = labels ds ! j, txt_len = txt_lens ds ! j,
                       snt_len = snt_lens ds ! j \<rparr>"
  shows "ImdbReviewsDataset_getitem ds i =
     (if 0 \<le> i \<and> i < n then Inr (entry (nat i))
      else if - n \<le> i \<and> i < 0 then Inr (entry (nat (i + n)))
      else Inl IndexError)"
  using assms(1-3) by (simp add: ImdbReviewsDataset_getitem_def py_index_cases n_def entry_def)

text \<open>What the loop keeps true of the five lists.\<close>

lemma load_file_lists:
  assumes "load_file str_lower fs ds p = Inr ds'"
    and "length (labels ds) = length (texts ds)" "length (txt_lens ds) = length (texts ds)"
    "length (snt_lens ds) = length (texts ds)"
  shows "length (labels ds') = length (texts ds')" "length (txt_lens ds') = length (texts ds')"
    "length (snt_lens ds') = length (texts ds')"
  using assms by (auto simp: load_file_def split: sum.splits prod.splits)

lemma map_filter_ran: "set (List.map_filter m ws) \<subseteq> ran m"
  by (auto simp: List.map_filter_def ran_def)

lemma clipped_text_ids:
  assumes "snt \<in> set (clipped_text str_lower ds content)" "x \<in> set snt"
  shows "x \<in> ran (vocab ds)"
proof -
  from assms(1) have "snt \<in> set (map (\<lambda>s. py_take (snt_clip ds) (List.map_filter (vocab ds) (w_tokenizer ds s)))
                (s_tokenizer ds (html_sub (str_lower content))))"
    unfolding clipped_text_def Let_def py_take_def by (rule in_set_takeD)
  then obtain s where "snt = py_take (snt_clip ds) (List.map_filter (vocab ds) (w_tokenizer ds s))"
    by auto
  with assms(2) have "x \<in> set (List.map_filter (vocab ds) (w_tokenizer ds s))"
    by (auto simp: py_take_def dest: in_set_takeD)
  with map_filter_ran [of "vocab ds" "w_tokenizer ds s"] show ?thesis by auto
qed

lemma load_file_items:
  assumes "load_file str_lower fs ds p = Inr ds'"
    and "length (labels ds) = length (texts ds)" "length (txt_lens ds) = length (texts ds)"
    "length (snt_lens ds) = length (texts ds)"
    and "\<forall>x \<in> ran (vocab ds). is_int64 x"
    and "\<forall>j < length (texts ds). corpus_item \<lparr> txt' = texts ds ! j, label = labels ds ! j,
            txt_len = txt_lens ds ! j, snt_len = snt_lens ds ! j \<rparr>"
  shows "\<forall>j < length (texts ds'). corpus_item \<lparr> txt' = texts ds' ! j, label = labels ds' ! j,
            txt_len = txt_lens ds' ! j, snt_len = snt_lens ds' ! j \<rparr>"
proof -
  from assms(1) obtain content where o: "open_read fs p = Inr content"
    by (auto simp: load_file_def split: sum.splits)
  define doc where "doc = clipped_text str_lower ds content"
  from assms(1) o have ne: "doc \<noteq> []"
    by (auto simp: load_file_def tokenize_plane_text_cases doc_def split: if_splits)
  with assms(1) o have ds': "ds' = ds\<lparr> paths := paths ds @ [p], texts := texts ds @ [doc],
      labels := labels ds @ [if parent_name p = ''pos'' then 1 else 0],
      snt_lens := snt_lens ds @ [Max (set (map (\<lambda>snt. int (length snt)) doc))],
      txt_lens := txt_lens ds @ [int (length doc)] \<rparr>"
    by (simp add: load_file_def tokenize_plane_text_cases doc_def)
  have ids: "list_all (list_all is_int64) doc"
    using assms(5) clipped_text_ids [of _ str_lower ds content]
    by (auto simp: list_all_iff doc_def)
  have new: "corpus_item \<lparr> txt' = doc, label = (if parent_name p = ''pos'' then 1 else 0),
      txt_len = int (length doc), snt_len = Max (set (map (\<lambda>snt. int (length snt)) doc)) \<rparr>"
    using ne ids by (simp add: corpus_item_def)
  show ?thesis
  proof (intro allI impI)
    fix j assume "j < length (texts ds')"
    then have "j < length (texts ds) \<or> j = length (texts ds)" by (auto simp: ds')
    then show "corpus_item \<lparr> txt' = texts ds' ! j, label = labels ds' ! j,
            txt_len = txt_lens ds' ! j, snt_len = snt_lens ds' ! j \<rparr>"
    proof
      assume "j < length (texts ds)"
      with assms(2-4,6) show ?thesis by (simp add: ds' nth_append)
    next
      assume "j = length (texts ds)"
      with assms(2-4) new show ?thesis by (simp add: ds' nth_append)
    qed
  qed
qed

lemma load_files_lists:
  assumes "load_files str_lower fs ds files = Inr ds'"
    and "length (labels ds) = length (texts ds)" "length (txt_lens ds) = length (texts ds)"
    "length (snt_lens ds) = length (texts ds)"
  shows "length (labels ds') = length (texts ds') \<and> length (txt_lens ds') = length (texts ds')
    \<and> length (snt_lens ds') = length (texts ds')"
  using assms
proof (induction files arbitrary: ds)
  case Nil
  then show ?case by simp
next
  case (Cons p files)
  from Cons.prems(1) obtain ds1 where s: "load_file str_lower fs ds p = Inr ds1"
    "load_files str_lower fs ds1 files = Inr ds'"
    by (auto split: sum.splits)
  from load_file_lists [OF s(1) Cons.prems(2-4)] Cons.IH [OF s(2)] show ?case by blast
qed

lemma load_files_items:
  assumes "load_files str_lower fs ds files = Inr ds'"
    and "length (labels ds) = length (texts ds)" "length (txt_lens ds) = length (texts ds)"
    "length (snt_lens ds) = length (texts ds)"
    and "\<forall>x \<in> ran (vocab ds). is_int64 x"
    and "\<forall>j < length (texts ds). corpus_item \<lparr> txt' = texts ds ! j, label = labels ds ! j,
            txt_len = txt_lens ds ! j, snt_len = snt_lens ds ! j \<rparr>"
  shows "\<forall>j < length (texts ds'). corpus_item \<lparr> txt' = texts ds' ! j, label = labels ds' ! j,
            txt_len = txt_lens ds' ! j, snt_len = snt_lens ds' ! j \<rparr>"
  using assms
proof (induction files arbitrary: ds)
  case Nil
  then show ?case by simp
next
  case (Cons p files)
  from Cons.prems(1) obtain ds1 where s: "load_file str_lower fs ds p = Inr ds1"
    "load_files str_lower fs ds1 files = Inr ds'"
    by (auto split: sum.splits)
  note l = load_file_lists [OF s(1) Cons.prems(2-4)]
  have v: "\<forall>x \<in> ran (vocab ds1). is_int64 x"
    using Cons.prems(5) load_file_fields(1) [OF s(1)] by simp
  from Cons.IH [OF s(2) l v load_file_items [OF s(1) Cons.prems(2-6)]] show ?case .
qed

lemma init_lists:
  assumes "ImdbReviewsDataset_init str_lower punkt wordpunct fs dir v sc tc = Inr ds"
  shows "length (labels ds) = length (texts ds)" "length (txt_lens ds) = length (texts ds)"
    "length (snt_lens ds) = length (texts ds)"
  using load_files_lists [of str_lower fs "new_dataset punkt wordpunct dir v sc tc" _ ds] assms
  by (simp_all add: ImdbReviewsDataset_init_def load_data_def new_dataset_def)

lemma loaded_item_is_corpus_item:
  assumes "ImdbReviewsDataset_init str_lower punkt wordpunct fs dir v sc tc = Inr ds"
    and "\<forall>x \<in> ran v. is_int64 x"
    and "ImdbReviewsDataset_getitem ds i = Inr it"
  shows "corpus_item it"
proof -
  note l = init_lists [OF assms(1)]
  have "\<forall>j < length (texts ds). corpus_item \<lparr> txt' = texts ds ! j, label = labels ds ! j,
            txt_len = txt_lens ds ! j, snt_len = snt_lens ds ! j \<rparr>"
    using load_files_items [of str_lower fs "new_dataset punkt wordpunct dir v sc tc" _ ds] assms(1,2)
    by (simp add: ImdbReviewsDataset_init_def load_data_def new_dataset_def)
  with assms(3) show ?thesis
    by (auto simp: getitem_cases [OF l] split: if_splits)
qed

lemma demo_init:
  "ImdbReviewsDataset_init demo_lower demo_punkt demo_wordpunct demo_fs [''imdb''] demo_vocab 100 40
     = Inr ((new_dataset demo_punkt demo_wordpunct [''imdb''] demo_vocab 100 40)
              \<lparr> paths := [[''imdb'', ''neg'', ''0_3.txt'']], texts := [[[1], [2]]], labels := [0],
                snt_lens := [1], txt_lens := [2] \<rparr>)"
  by (simp add: ImdbReviewsDataset_init_def load_data_def glob_us_txt_def demo_fs_def
      fnmatch_us_txt_def load_file_def open_read_def tokenize_plane_text_def clipped_text_def
      new_dataset_def demo_lower_def demo_punkt_def demo_wordpunct_def demo_vocab_def py_take_def
      py_norm_index_def List.map_filter_def parent_name_def)

text \<open>
  C7 (as amended). For every loaded corpus of length \<open>L\<close>: an index \<open>i\<close> with
  \<open>L \<le> i\<close> or \<open>i < - L\<close> makes \<^verbatim>\<open>__getitem__\<close> fail with \<^verbatim>\<open>IndexError\<close>; an
  index with \<open>- L \<le> i < 0\<close> returns the item that the index \<open>i + L\<close> returns.
\<close>

theorem getitem_index_error:
  assumes "ImdbReviewsDataset_init str_lower punkt wordpunct fs dir v sc tc = Inr ds"
  shows "(ImdbReviewsDataset_len ds \<le> i \<or> i < - ImdbReviewsDataset_len ds
            \<longrightarrow> ImdbReviewsDataset_getitem ds i = Inl IndexError)
         \<and> (- ImdbReviewsDataset_len ds \<le> i \<and> i < 0
            \<longrightarrow> (\<exists>it. ImdbReviewsDataset_getitem ds i = Inr it
                     \<and> ImdbReviewsDataset_getitem ds (i + ImdbReviewsDataset_len ds) = Inr it))"
  by (auto simp: getitem_cases [OF init_lists [OF assms]] ImdbReviewsDataset_len_def)

theorem getitem_index_error_witness:
  "ImdbReviewsDataset_getitem
      (projr (ImdbReviewsDataset_init demo_lower demo_punkt demo_wordpunct demo_fs [''imdb'']
                demo_vocab 100 40)) 1 = Inl IndexError
   \<and> ImdbReviewsDataset_getitem
      (projr (ImdbReviewsDataset_init demo_lower demo_punkt demo_wordpunct demo_fs [''imdb'']
                demo_vocab 100 40)) (- 2) = Inl IndexError
   \<and> ImdbReviewsDataset_getitem
      (projr (ImdbReviewsDataset_init demo_lower demo_punkt demo_wordpunct demo_fs [''imdb'']
                demo_vocab 100 40)) (- 1)
     = ImdbReviewsDataset_getitem
      (projr (ImdbReviewsDataset_init demo_lower demo_punkt demo_wordpunct demo_fs [''imdb'']
                demo_vocab 100 40)) 0"
proof -
  let ?r = "ImdbReviewsDataset_init demo_lower demo_punkt demo_wordpunct demo_fs [''imdb'']
                demo_vocab 100 40"
  have h: "?r = Inr (projr ?r)" by (simp add: demo_init)
  have n: "ImdbReviewsDataset_len (projr ?r) = 1"
    by (simp add: demo_init ImdbReviewsDataset_len_def)
  from getitem_index_error [OF h, of 1] getitem_index_error [OF h, of "- 2"]
    getitem_index_error [OF h, of "- 1"]
  show ?thesis unfolding n by auto
qed

text \<open>
  The corpus of the one review has length 1, and the index \<open>- 1\<close>, which is outside
  \<open>[0, 1)\<close>, returns its item.
\<close>

theorem getitem_negative_index_counterexample:
  "ImdbReviewsDataset_len
      (projr (ImdbReviewsDataset_init demo_lower demo_punkt demo_wordpunct demo_fs [''imdb'']
                demo_vocab 100 40)) = 1
   \<and> ImdbReviewsDataset_getitem
      (projr (ImdbReviewsDataset_init demo_lower demo_punkt demo_wordpunct demo_fs [''imdb'']
                demo_vocab 100 40)) (- 1)
     = Inr \<lparr> txt' = [[1], [2]], label = 0, txt_len = 2, snt_len = 1 \<rparr>"
  by (simp add: demo_init ImdbReviewsDataset_len_def ImdbReviewsDataset_getitem_def py_index_def
      new_dataset_def)

section \<open>Loading: absent directories\<close>

text \<open>
  C8 (as amended). An absent \<^verbatim>\<open>neg\<close> or \<^verbatim>\<open>pos\<close> directory raises nothing: it
  contributes no file, and the load goes over the files of the other directory. When
  both are absent (as they are when the root is absent) the load succeeds and returns
  the corpus without documents.
\<close>

theorem load_absent_directories:
  "(fs (dir @ [''neg'']) = None \<and> fs (dir @ [''pos'']) = None
      \<longrightarrow> ImdbReviewsDataset_init str_lower punkt wordpunct fs dir v sc tc
            = Inr (new_dataset punkt wordpunct dir v sc tc))
   \<and> (fs (dir @ [''neg'']) = None
      \<longrightarrow> ImdbReviewsDataset_init str_lower punkt wordpunct fs dir v sc tc
            = load_files str_lower fs (new_dataset punkt wordpunct dir v sc tc)
                (glob_us_txt fs (dir @ [''pos''])))
   \<and> (fs (dir @ [''pos'']) = None
      \<longrightarrow> ImdbReviewsDataset_init str_lower punkt wordpunct fs dir v sc tc
            = load_files str_lower fs (new_dataset punkt wordpunct dir v sc tc)
                (glob_us_txt fs (dir @ [''neg''])))"
  by (simp add: ImdbReviewsDataset_init_def load_data_def glob_us_txt_def new_dataset_def)

theorem load_absent_directories_witness:
  "ImdbReviewsDataset_init demo_lower demo_punkt demo_wordpunct Map.empty [''imdb''] demo_vocab 100 40
     = Inr (new_dataset demo_punkt demo_wordpunct [''imdb''] demo_vocab 100 40)
   \<and> ImdbReviewsDataset_init demo_lower demo_punkt demo_wordpunct demo_fs [''imdb''] demo_vocab 100 40
     = load_files demo_lower demo_fs (new_dataset demo_punkt demo_wordpunct [''imdb''] demo_vocab 100 40)
         (glob_us_txt demo_fs ([''imdb''] @ [''neg'']))"
  using load_absent_directories [of Map.empty "[''imdb'']" demo_lower demo_punkt demo_wordpunct
      demo_vocab 100 40]
    load_absent_directories [of demo_fs "[''imdb'']" demo_lower demo_punkt demo_wordpunct
      demo_vocab 100 40]
  by (simp add: demo_fs_def)

text \<open>
  Over the empty file system the construction returns a dataset of length 0.
\<close>

theorem load_absent_root_counterexample:
  "ImdbReviewsDataset_init demo_lower demo_punkt demo_wordpunct Map.empty [''imdb''] demo_vocab 100 40
     = Inr (new_dataset demo_punkt demo_wordpunct [''imdb''] demo_vocab 100 40)
   \<and> ImdbReviewsDataset_len (new_dataset demo_punkt demo_wordpunct [''imdb''] demo_vocab 100 40) = 0"
  by (simp add: ImdbReviewsDataset_init_def load_data_def glob_us_txt_def new_dataset_def
      ImdbReviewsDataset_len_def)

section \<open>collate\_docs: the two loops\<close>

text \<open>
  While the rows of a document are written, the rows already written hold the
  sentences followed by zeros and the rows still to come are zero; the same holds of
  the documents of the batch.
\<close>

lemma assign_snt_zero_row:
  assumes "shape3 t = (d0, h, w)" "i < d0" "j < h" "length snt \<le> w" "list_all is_int64 snt"
    and "cells3 t ! i ! j = replicate w 0"
  shows "assign_snt t i j snt
     = Inr (t\<lparr> cells3 := (cells3 t)[i := (cells3 t ! i)[j := snt @ replicate (w - length snt) 0]] \<rparr>)"
  using assms by (simp add: assign_snt_def Let_def)

lemma fill_snts_rows:
  assumes "shape3 t = (d0, h, w)" "i < d0" "length (cells3 t) = d0"
  shows "cells3 t ! i = pre @ replicate (h - length pre) (replicate w 0) \<Longrightarrow>
     length pre + length snts \<le> h \<Longrightarrow>
     \<forall>snt \<in> set snts. length snt \<le> w \<and> list_all is_int64 snt \<Longrightarrow>
     shape3 t = (d0, h, w) \<Longrightarrow> length (cells3 t) = d0 \<Longrightarrow>
     fill_snts t i (length pre) snts
       = Inr (t\<lparr> cells3 := (cells3 t)[i := pre @ map (\<lambda>snt. snt @ replicate (w - length snt) 0) snts
                  @ replicate (h - length pre - length snts) (replicate w 0)] \<rparr>)"
proof (induction snts arbitrary: t pre)
  case Nil
  then have "(cells3 t)[i := pre @ replicate (h - length pre) (replicate w 0)] = cells3 t"
    by (metis list_update_id)
  then show ?case by simp
next
  case (Cons snt snts)
  let ?pad = "\<lambda>snt. snt @ replicate (w - length snt) (0 :: int)"
  let ?z = "replicate w (0 :: int)"
  from Cons.prems(2) have j: "length pre < h" by simp
  then obtain m where m: "h - length pre = Suc m" by (cases "h - length pre") simp_all
  have row: "cells3 t ! i ! length pre = ?z"
    using Cons.prems(1) m by (simp add: nth_append)
  have s: "length snt \<le> w" "list_all is_int64 snt" using Cons.prems(3) by simp_all
  define t' where "t' = t\<lparr> cells3 := (cells3 t)[i := (cells3 t ! i)[length pre := ?pad snt]] \<rparr>"
  have a: "assign_snt t i (length pre) snt = Inr t'"
    unfolding t'_def using Cons.prems(4) assms(2) j s row by (rule assign_snt_zero_row)
  have upd: "(cells3 t ! i)[length pre := ?pad snt] = (pre @ [?pad snt]) @ replicate m ?z"
    using Cons.prems(1) m by (simp add: list_update_append)
  have i: "i < length (cells3 t)" using Cons.prems(5) assms(2) by simp
  have c': "cells3 t' ! i = (pre @ [?pad snt]) @ replicate (h - length (pre @ [?pad snt])) ?z"
    using i upd m by (simp add: t'_def)
  have l': "length (pre @ [?pad snt]) + length snts \<le> h" using Cons.prems(2) by simp
  have r': "\<forall>snt \<in> set snts. length snt \<le> w \<and> list_all is_int64 snt" using Cons.prems(3) by simp
  have sh': "shape3 t' = (d0, h, w)" using Cons.prems(4) by (simp add: t'_def)
  have ln': "length (cells3 t') = d0" using Cons.prems(5) by (simp add: t'_def)
  from Cons.IH [OF c' l' r' sh' ln']
  have "fill_snts t' i (Suc (length pre)) snts
     = Inr (t'\<lparr> cells3 := (cells3 t')[i := (pre @ [?pad snt]) @ map ?pad snts
                  @ replicate (h - length (pre @ [?pad snt]) - length snts) ?z] \<rparr>)"
    by simp
  with a show ?case by (simp add: t'_def)
qed

lemma fill_snts_doc:
  assumes "shape3 t = (d0, h, w)" "i < d0" "length (cells3 t) = d0"
    and "cells3 t ! i = replicate h (replicate w 0)"
    and "length snts \<le> h"
    and "\<forall>snt \<in> set snts. length snt \<le> w \<and> list_all is_int64 snt"
  shows "fill_snts t i 0 snts
       = Inr (t\<lparr> cells3 := (cells3 t)[i := map (\<lambda>snt. snt @ replicate (w - length snt) 0) snts
                  @ replicate (h - length snts) (replicate w 0)] \<rparr>)"
  using fill_snts_rows [OF assms(1-3), of "[]" snts] assms by simp

lemma fill_docs_rows:
  fixes dt :: tensor3 and lt :: tensor2
  shows "shape3 dt = (d0, h, w) \<Longrightarrow>
     cells3 dt = done3 @ replicate (length items) (replicate h (replicate w 0)) \<Longrightarrow>
     shape2 lt = (d0, 1) \<Longrightarrow>
     cells2 lt = done2 @ replicate (length items) [0] \<Longrightarrow>
     length done3 = length done2 \<Longrightarrow>
     length done3 + length items = d0 \<Longrightarrow>
     \<forall>it \<in> set items. length (txt' it) \<le> h
        \<and> (\<forall>snt \<in> set (txt' it). length snt \<le> w \<and> list_all is_int64 snt) \<Longrightarrow>
     fill_docs lt dt (length done3) items
       = Inr (lt\<lparr> cells2 := done2 @ map (\<lambda>it. [real_of_int (label it)]) items \<rparr>,
              dt\<lparr> cells3 := done3 @ map (\<lambda>it. map (\<lambda>snt. snt @ replicate (w - length snt) 0) (txt' it)
                                    @ replicate (h - length (txt' it)) (replicate w 0)) items \<rparr>)"
proof (induction items arbitrary: lt dt done3 done2)
  case Nil
  then show ?case by simp
next
  case (Cons it items)
  let ?doc = "map (\<lambda>snt. snt @ replicate (w - length snt) 0) (txt' it)
               @ replicate (h - length (txt' it)) (replicate w 0)"
  let ?i = "length done3"
  have i: "?i < d0" using Cons.prems(6) by simp
  define lt' where "lt' = lt\<lparr> cells2 := (done2 @ [[real_of_int (label it)]]) @ replicate (length items) [0] \<rparr>"
  have al: "assign_label lt ?i (label it) = Inr lt'"
    using Cons.prems(3,4,5) i
    by (simp add: assign_label_def lt'_def nth_append list_update_append)
  have len: "length (cells3 dt) = d0" using Cons.prems(2,6) by simp
  have zero: "cells3 dt ! ?i = replicate h (replicate w 0)"
    using Cons.prems(2) by (simp add: nth_append)
  have it: "length (txt' it) \<le> h" "\<forall>snt \<in> set (txt' it). length snt \<le> w \<and> list_all is_int64 snt"
    using Cons.prems(7) by simp_all
  define dt' where "dt' = dt\<lparr> cells3 := (done3 @ [?doc]) @ replicate (length items) (replicate h (replicate w 0)) \<rparr>"
  have fs: "fill_snts dt ?i 0 (txt' it) = Inr dt'"
    using fill_snts_doc [OF Cons.prems(1) i len zero it] Cons.prems(2)
    by (simp add: dt'_def list_update_append)
  have ih: "fill_docs lt' dt' (length (done3 @ [?doc])) items
       = Inr (lt'\<lparr> cells2 := (done2 @ [[real_of_int (label it)]]) @ map (\<lambda>it. [real_of_int (label it)]) items \<rparr>,
              dt'\<lparr> cells3 := (done3 @ [?doc]) @ map (\<lambda>it. map (\<lambda>snt. snt @ replicate (w - length snt) 0) (txt' it)
                                    @ replicate (h - length (txt' it)) (replicate w 0)) items \<rparr>)"
  proof (rule Cons.IH)
    show "shape3 dt' = (d0, h, w)" using Cons.prems(1) by (simp add: dt'_def)
    show "cells3 dt' = (done3 @ [?doc]) @ replicate (length items) (replicate h (replicate w 0))"
      by (simp add: dt'_def)
    show "shape2 lt' = (d0, 1)" using Cons.prems(3) by (simp add: lt'_def)
    show "cells2 lt' = (done2 @ [[real_of_int (label it)]]) @ replicate (length items) [0]"
      by (simp add: lt'_def)
    show "length (done3 @ [?doc]) = length (done2 @ [[real_of_int (label it)]])"
      using Cons.prems(5) by simp
    show "length (done3 @ [?doc]) + length items = d0" using Cons.prems(6) by simp
    show "\<forall>it \<in> set items. length (txt' it) \<le> h
        \<and> (\<forall>snt \<in> set (txt' it). length snt \<le> w \<and> list_all is_int64 snt)"
      using Cons.prems(7) by simp
  qed
  from al fs ih show ?case by (simp add: lt'_def dt'_def)
qed

lemma corpus_item_bounds:
  assumes "it \<in> set batch" "corpus_item it"
  shows "length (txt' it) \<le> nat (Max (set (map txt_len batch)))"
    and "\<forall>snt \<in> set (txt' it). length snt \<le> nat (Max (set (map snt_len batch)))
            \<and> list_all is_int64 snt"
proof -
  have "txt_len it \<le> Max (set (map txt_len batch))" using assms(1) by (intro Max_ge) simp_all
  moreover have "txt_len it = int (length (txt' it))" using assms(2) by (simp add: corpus_item_def)
  ultimately show "length (txt' it) \<le> nat (Max (set (map txt_len batch)))" by simp
  have m: "snt_len it \<le> Max (set (map snt_len batch))" using assms(1) by (intro Max_ge) simp_all
  show "\<forall>snt \<in> set (txt' it). length snt \<le> nat (Max (set (map snt_len batch)))
            \<and> list_all is_int64 snt"
  proof
    fix snt assume s: "snt \<in> set (txt' it)"
    then have "int (length snt) \<le> Max (set (map (\<lambda>snt. int (length snt)) (txt' it)))"
      by (intro Max_ge) simp_all
    also have "\<dots> = snt_len it" using assms(2) by (simp add: corpus_item_def)
    finally have "length snt \<le> nat (Max (set (map snt_len batch)))" using m by simp
    moreover have "list_all is_int64 snt" using assms(2) s by (simp add: corpus_item_def list_all_iff)
    ultimately show "length snt \<le> nat (Max (set (map snt_len batch))) \<and> list_all is_int64 snt" ..
  qed
qed

lemma corpus_item_nonneg:
  assumes "batch \<noteq> []" "\<forall>it \<in> set batch. corpus_item it"
  shows "0 \<le> Max (set (map txt_len batch))" "0 \<le> Max (set (map snt_len batch))"
proof -
  from assms(1) obtain it where it: "it \<in> set batch" by (cases batch) auto
  with assms(2) have c: "corpus_item it" by simp
  have "0 \<le> txt_len it" using c by (simp add: corpus_item_def)
  also have "\<dots> \<le> Max (set (map txt_len batch))" using it by (intro Max_ge) simp_all
  finally show "0 \<le> Max (set (map txt_len batch))" .
  from c obtain snt where s: "snt \<in> set (txt' it)" by (cases "txt' it") (auto simp: corpus_item_def)
  have "0 \<le> int (length snt)" by simp
  also have "\<dots> \<le> Max (set (map (\<lambda>snt. int (length snt)) (txt' it)))"
    using s by (intro Max_ge) simp_all
  also have "\<dots> = snt_len it" using c by (simp add: corpus_item_def)
  also have "\<dots> \<le> Max (set (map snt_len batch))" using it by (intro Max_ge) simp_all
  finally show "0 \<le> Max (set (map snt_len batch))" .
qed

lemma collate_docs_padded:
  assumes "batch \<noteq> []" "\<forall>it \<in> set batch. corpus_item it"
  defines "h \<equiv> nat (Max (set (map txt_len batch)))"
  defines "w \<equiv> nat (Max (set (map snt_len batch)))"
  shows "collate_docs batch
     = Inr \<lparr> features = \<lparr> shape3 = (length batch, h, w),
                cells3 = map (\<lambda>it. map (\<lambda>snt. snt @ replicate (w - length snt) 0) (txt' it)
                                    @ replicate (h - length (txt' it)) (replicate w 0)) batch \<rparr>,
             targets = \<lparr> shape2 = (length batch, 1),
                cells2 = map (\<lambda>it. [real_of_int (label it)]) batch \<rparr> \<rparr>"
proof -
  note nn = corpus_item_nonneg [OF assms(1,2)]
  have mx: "py_max (map snt_len batch) = Inr (Max (set (map snt_len batch)))"
    "py_max (map txt_len batch) = Inr (Max (set (map txt_len batch)))"
    using assms(1) by (simp_all add: py_max_Inr)
  define lt where "lt = \<lparr> shape2 = (length batch, 1 :: nat),
      cells2 = replicate (length batch) [0 :: real] \<rparr>"
  define dt where "dt = \<lparr> shape3 = (length batch, h, w),
      cells3 = replicate (length batch) (replicate h (replicate w (0 :: int))) \<rparr>"
  have z2: "torch_zeros2 (int (length batch)) 1 = Inr lt"
    by (simp add: torch_zeros2_def lt_def)
  have z3: "torch_zeros3 (int (length batch)) (Max (set (map txt_len batch)))
      (Max (set (map snt_len batch))) = Inr dt"
    using nn by (simp add: torch_zeros3_def dt_def h_def w_def)
  have b: "\<forall>it \<in> set batch. length (txt' it) \<le> h
        \<and> (\<forall>snt \<in> set (txt' it). length snt \<le> w \<and> list_all is_int64 snt)"
    using corpus_item_bounds [of _ batch] assms(2) unfolding h_def w_def by blast
  have "fill_docs lt dt (length ([] :: int list list list)) batch
       = Inr (lt\<lparr> cells2 := [] @ map (\<lambda>it. [real_of_int (label it)]) batch \<rparr>,
              dt\<lparr> cells3 := [] @ map (\<lambda>it. map (\<lambda>snt. snt @ replicate (w - length snt) 0) (txt' it)
                                    @ replicate (h - length (txt' it)) (replicate w 0)) batch \<rparr>)"
    using b by (intro fill_docs_rows [where ?d0.0 = "length batch"]) (simp_all add: lt_def dt_def)
  then have "fill_docs lt dt 0 batch
       = Inr (lt\<lparr> cells2 := map (\<lambda>it. [real_of_int (label it)]) batch \<rparr>,
              dt\<lparr> cells3 := map (\<lambda>it. map (\<lambda>snt. snt @ replicate (w - length snt) 0) (txt' it)
                                    @ replicate (h - length (txt' it)) (replicate w 0)) batch \<rparr>)"
    by simp
  with z2 z3 show ?thesis
    unfolding collate_docs_def mx by (simp add: Let_def lt_def dt_def)
qed

section \<open>collate\_docs: shape and padding\<close>

text \<open>
  C2. For every non-empty batch of \<open>N\<close> corpus items, with \<open>max_txt\<close> the largest
  document length and \<open>max_snt\<close> the largest per-document maximal sentence length of
  the batch, \<^verbatim>\<open>collate_docs\<close> returns a feature tensor of shape
  \<open>[N, max_txt, max_snt]\<close> and a label tensor of shape \<open>[N, 1]\<close>. The cell
  \<open>[i, j, k]\<close> of the features is the \<open>k\<close>-th id of sentence \<open>j\<close> of item \<open>i\<close>
  when the item has a sentence \<open>j\<close> and the sentence has a position \<open>k\<close>, and 0
  otherwise; row \<open>i\<close> of the labels is the label of item \<open>i\<close>. The corpus items
  are the items of \<open>corpus_item\<close>, which holds of every item that \<^verbatim>\<open>__getitem__\<close>
  returns from a loaded dataset whose vocabulary ids fit int64
  (\<open>loaded_item_is_corpus_item\<close>).
\<close>

theorem collate_docs_shape_and_padding:
  assumes "batch \<noteq> []" and "\<forall>it \<in> set batch. corpus_item it"
  defines "N \<equiv> length batch"
  defines "max_txt \<equiv> nat (Max (set (map txt_len batch)))"
  defines "max_snt \<equiv> nat (Max (set (map snt_len batch)))"
  shows "\<exists>out. collate_docs batch = Inr out
    \<and> shape3 (features out) = (N, max_txt, max_snt)
    \<and> length (cells3 (features out)) = N
    \<and> (\<forall>i < N. length (cells3 (features out) ! i) = max_txt
          \<and> (\<forall>j < max_txt. length (cells3 (features out) ! i ! j) = max_snt))
    \<and> (\<forall>i < N. \<forall>j < max_txt. \<forall>k < max_snt.
          cells3 (features out) ! i ! j ! k
            = (if j < length (txt' (batch ! i)) \<and> k < length (txt' (batch ! i) ! j)
               then txt' (batch ! i) ! j ! k else 0))
    \<and> shape2 (targets out) = (N, 1)
    \<and> length (cells2 (targets out)) = N
    \<and> (\<forall>i < N. cells2 (targets out) ! i = [real_of_int (label (batch ! i))])"
proof -
  let ?pad = "\<lambda>snt. snt @ replicate (max_snt - length snt) (0 :: int)"
  let ?doc = "\<lambda>it. map ?pad (txt' it) @ replicate (max_txt - length (txt' it)) (replicate max_snt 0)"
  define out where "out = \<lparr> features = \<lparr> shape3 = (N, max_txt, max_snt), cells3 = map ?doc batch \<rparr>,
             targets = \<lparr> shape2 = (N, 1), cells2 = map (\<lambda>it. [real_of_int (label it)]) batch \<rparr> \<rparr>"
  have c: "collate_docs batch = Inr out"
    unfolding out_def N_def max_txt_def max_snt_def by (rule collate_docs_padded [OF assms(1,2)])
  have b: "length (txt' (batch ! i)) \<le> max_txt"
    "\<And>snt. snt \<in> set (txt' (batch ! i)) \<Longrightarrow> length snt \<le> max_snt" if "i < N" for i
    using corpus_item_bounds [of "batch ! i" batch] assms(2) that
    unfolding N_def max_txt_def max_snt_def by simp_all
  have rows: "length (?doc (batch ! i)) = max_txt" if "i < N" for i
    using b(1) [OF that] by simp
  have row: "length (?doc (batch ! i) ! j) = max_snt"
    and cell: "\<And>k. k < max_snt \<Longrightarrow> ?doc (batch ! i) ! j ! k
            = (if j < length (txt' (batch ! i)) \<and> k < length (txt' (batch ! i) ! j)
               then txt' (batch ! i) ! j ! k else 0)"
    if "i < N" "j < max_txt" for i j
  proof -
    show "length (?doc (batch ! i) ! j) = max_snt"
    proof (cases "j < length (txt' (batch ! i))")
      case True
      then have "length (txt' (batch ! i) ! j) \<le> max_snt" using b(2) [OF that(1)] by simp
      with True show ?thesis by (simp add: nth_append)
    next
      case False
      with that(2) show ?thesis by (simp add: nth_append)
    qed
    fix k assume k: "k < max_snt"
    show "?doc (batch ! i) ! j ! k
            = (if j < length (txt' (batch ! i)) \<and> k < length (txt' (batch ! i) ! j)
               then txt' (batch ! i) ! j ! k else 0)"
    proof (cases "j < length (txt' (batch ! i))")
      case True
      with k show ?thesis by (simp add: nth_append)
    next
      case False
      with that(2) k show ?thesis by (simp add: nth_append)
    qed
  qed
  have "shape3 (features out) = (N, max_txt, max_snt)" by (simp add: out_def)
  moreover have "length (cells3 (features out)) = N" by (simp add: out_def N_def)
  moreover have "\<forall>i < N. length (cells3 (features out) ! i) = max_txt
          \<and> (\<forall>j < max_txt. length (cells3 (features out) ! i ! j) = max_snt)"
    using rows row by (simp add: out_def N_def)
  moreover have "\<forall>i < N. \<forall>j < max_txt. \<forall>k < max_snt.
          cells3 (features out) ! i ! j ! k
            = (if j < length (txt' (batch ! i)) \<and> k < length (txt' (batch ! i) ! j)
               then txt' (batch ! i) ! j ! k else 0)"
    using cell by (simp add: out_def N_def)
  moreover have "shape2 (targets out) = (N, 1)" by (simp add: out_def)
  moreover have "length (cells2 (targets out)) = N" by (simp add: out_def N_def)
  moreover have "\<forall>i < N. cells2 (targets out) ! i = [real_of_int (label (batch ! i))]"
    by (simp add: out_def N_def)
  ultimately show ?thesis using c by blast
qed

theorem collate_docs_shape_and_padding_witness:
  "[\<lparr> txt' = [[1, 2], [2]], label = 0, txt_len = 2, snt_len = 2 \<rparr>,
    \<lparr> txt' = [[1], [2, 1, 2, 1], [2]], label = 1, txt_len = 3, snt_len = 4 \<rparr>] \<noteq> []
   \<and> corpus_item \<lparr> txt' = [[1, 2], [2]], label = 0, txt_len = 2, snt_len = 2 \<rparr>
   \<and> corpus_item \<lparr> txt' = [[1], [2, 1, 2, 1], [2]], label = 1, txt_len = 3, snt_len = 4 \<rparr>
   \<and> (\<exists>out. collate_docs [\<lparr> txt' = [[1, 2], [2]], label = 0, txt_len = 2, snt_len = 2 \<rparr>,
                   \<lparr> txt' = [[1], [2, 1, 2, 1], [2]], label = 1, txt_len = 3, snt_len = 4 \<rparr>] = Inr out
         \<and> shape3 (features out) = (2, 3, 4)
         \<and> cells3 (features out) ! 0 ! 0 ! 1 = 2
         \<and> cells3 (features out) ! 0 ! 1 ! 1 = 0
         \<and> cells3 (features out) ! 0 ! 2 ! 0 = 0
         \<and> cells3 (features out) ! 1 ! 1 ! 3 = 1
         \<and> shape2 (targets out) = (2, 1)
         \<and> cells2 (targets out) ! 0 = [0]
         \<and> cells2 (targets out) ! 1 = [1])"
proof -
  let ?b = "[\<lparr> txt' = [[1, 2], [2]], label = 0, txt_len = 2, snt_len = 2 \<rparr>,
    \<lparr> txt' = [[1], [2, 1, 2, 1], [2]], label = 1, txt_len = 3, snt_len = 4 \<rparr>]"
  have n: "?b \<noteq> []" by simp
  have c: "\<forall>it \<in> set ?b. corpus_item it" by (simp add: corpus_item_def is_int64_def)
  have l: "length ?b = 2" "nat (Max (set (map txt_len ?b))) = 3" "nat (Max (set (map snt_len ?b))) = 4"
    by simp_all
  from collate_docs_shape_and_padding [OF n c, unfolded l]
  obtain out where o: "collate_docs ?b = Inr out" "shape3 (features out) = (2, 3, 4)"
    "\<forall>i < 2. \<forall>j < 3. \<forall>k < 4.
          cells3 (features out) ! i ! j ! k
            = (if j < length (txt' (?b ! i)) \<and> k < length (txt' (?b ! i) ! j)
               then txt' (?b ! i) ! j ! k else 0)"
    "shape2 (targets out) = (2, 1)"
    "\<forall>i < 2. cells2 (targets out) ! i = [real_of_int (label (?b ! i))]"
    by blast
  have "cells3 (features out) ! 0 ! 0 ! 1 = 2" using o(3) [rule_format, of 0 0 1] by simp
  moreover have "cells3 (features out) ! 0 ! 1 ! 1 = 0" using o(3) [rule_format, of 0 1 1] by simp
  moreover have "cells3 (features out) ! 0 ! 2 ! 0 = 0" using o(3) [rule_format, of 0 2 0] by simp
  moreover have "cells3 (features out) ! 1 ! 1 ! 3 = 1" using o(3) [rule_format, of 1 1 3] by simp
  moreover have "cells2 (targets out) ! 0 = [0]" using o(5) [rule_format, of 0] by simp
  moreover have "cells2 (targets out) ! 1 = [1]" using o(5) [rule_format, of 1] by simp
  moreover have "corpus_item \<lparr> txt' = [[1, 2], [2]], label = 0, txt_len = 2, snt_len = 2 \<rparr>"
    "corpus_item \<lparr> txt' = [[1], [2, 1, 2, 1], [2]], label = 1, txt_len = 3, snt_len = 4 \<rparr>"
    using c by simp_all
  ultimately show ?thesis using n o(1,2,4) by blast
qed

section \<open>collate\_docs: the empty batch\<close>

lemma assign_snt_error: "assign_snt t i j snt \<noteq> Inl ValueError"
  by (simp add: assign_snt_def Let_def split: prod.splits)

lemma fill_snts_error: "fill_snts t i j snts \<noteq> Inl ValueError"
  by (induction snts arbitrary: t j) (auto simp: assign_snt_error split: sum.splits)

lemma fill_docs_error: "fill_docs lt dt i items \<noteq> Inl ValueError"
  by (induction items arbitrary: lt dt i)
     (auto simp: fill_snts_error assign_label_def split: sum.splits if_splits)

text \<open>
  C10. On the empty batch \<^verbatim>\<open>collate_docs\<close> raises the \<^verbatim>\<open>ValueError\<close> of the maximum
  of an empty list; it returns no empty tensors. The maximum raises, and
  \<^verbatim>\<open>collate_docs\<close> ends with this error, exactly when the batch has no item.
\<close>

theorem collate_docs_empty_batch:
  "collate_docs [] = Inl ValueError
   \<and> (collate_docs batch = Inl ValueError) = (batch = [])
   \<and> (\<exists>e. py_max (map snt_len batch) = Inl e) = (batch = [])"
proof -
  have e: "collate_docs [] = Inl ValueError" by (simp add: collate_docs_def)
  have "collate_docs batch \<noteq> Inl ValueError" if "batch \<noteq> []"
  proof -
    from that obtain m1 m2 where m: "py_max (map snt_len batch) = Inr m1"
      "py_max (map txt_len batch) = Inr m2"
      by (cases batch) auto
    show ?thesis
      using fill_docs_error
      by (auto simp: collate_docs_def m Let_def torch_zeros2_def torch_zeros3_def
          split: sum.splits if_splits)
  qed
  with e have "(collate_docs batch = Inl ValueError) = (batch = [])" by auto
  moreover have "(\<exists>e. py_max (map snt_len batch) = Inl e) = (batch = [])"
    by (cases batch) auto
  ultimately show ?thesis using e by blast
qed

theorem collate_docs_empty_batch_witness:
  "collate_docs [] = Inl ValueError
   \<and> collate_docs [\<lparr> txt' = [[1, 2], [2]], label = 0, txt_len = 2, snt_len = 2 \<rparr>] \<noteq> Inl ValueError"
  using collate_docs_empty_batch [of "[]"]
    collate_docs_empty_batch [of "[\<lparr> txt' = [[1, 2], [2]], label = 0, txt_len = 2, snt_len = 2 \<rparr>]"]
  by simp

end
